theory Spec2Isabelle
  imports Main "HOL-Library.Multiset"
begin

section \<open>Python string operations used by the application\<close>

text \<open>
  A string is a list of characters with code points below 256. On these, the character
  classes below are those of Python's \<^verbatim>\<open>str.isspace\<close> (the characters \<^verbatim>\<open>str.strip()\<close>
  removes), \<^verbatim>\<open>str.isalnum\<close> and \<^verbatim>\<open>str.lower\<close>.
\<close>

definition is_space :: "char \<Rightarrow> bool" where
  "is_space c = (c \<in> {CHR '' '', CHR 0x09, CHR 0x0A, CHR 0x0B, CHR 0x0C, CHR 0x0D,
                       CHR 0x1C, CHR 0x1D, CHR 0x1E, CHR 0x1F, CHR 0x85, CHR 0xA0})"

definition is_alnum :: "char \<Rightarrow> bool" where
  "is_alnum c =
     (let n = (of_char c :: nat)
      in (48 \<le> n \<and> n \<le> 57) \<or> (65 \<le> n \<and> n \<le> 90) \<or> (97 \<le> n \<and> n \<le> 122)
         \<or> n = 170 \<or> n = 178 \<or> n = 179 \<or> n = 181 \<or> n = 185 \<or> n = 186
         \<or> (188 \<le> n \<and> n \<le> 190) \<or> (192 \<le> n \<and> n \<le> 214)
         \<or> (216 \<le> n \<and> n \<le> 246) \<or> (248 \<le> n \<and> n \<le> 255))"

text \<open>\<^verbatim>\<open>s.isalnum()\<close>: false on the empty string.\<close>

definition isalnum :: "string \<Rightarrow> bool" where
  "isalnum s = (s \<noteq> [] \<and> list_all is_alnum s)"

text \<open>The capital letters, A to Z and those from 0xC0 to 0xDE, and their small letters.\<close>

definition upper_letters :: string where
  "upper_letters =
     ''ABCDEFGHIJKLMNOPQRSTUVWXYZ''
     @ [CHR 0xC0, CHR 0xC1, CHR 0xC2, CHR 0xC3, CHR 0xC4, CHR 0xC5, CHR 0xC6, CHR 0xC7,
        CHR 0xC8, CHR 0xC9, CHR 0xCA, CHR 0xCB, CHR 0xCC, CHR 0xCD, CHR 0xCE, CHR 0xCF,
        CHR 0xD0, CHR 0xD1, CHR 0xD2, CHR 0xD3, CHR 0xD4, CHR 0xD5, CHR 0xD6, CHR 0xD8,
        CHR 0xD9, CHR 0xDA, CHR 0xDB, CHR 0xDC, CHR 0xDD, CHR 0xDE]"

definition lower_letters :: string where
  "lower_letters =
     ''abcdefghijklmnopqrstuvwxyz''
     @ [CHR 0xE0, CHR 0xE1, CHR 0xE2, CHR 0xE3, CHR 0xE4, CHR 0xE5, CHR 0xE6, CHR 0xE7,
        CHR 0xE8, CHR 0xE9, CHR 0xEA, CHR 0xEB, CHR 0xEC, CHR 0xED, CHR 0xEE, CHR 0xEF,
        CHR 0xF0, CHR 0xF1, CHR 0xF2, CHR 0xF3, CHR 0xF4, CHR 0xF5, CHR 0xF6, CHR 0xF8,
        CHR 0xF9, CHR 0xFA, CHR 0xFB, CHR 0xFC, CHR 0xFD, CHR 0xFE]"

definition lower_char :: "char \<Rightarrow> char" where
  "lower_char c =
     (case map_of (zip upper_letters lower_letters) c of
        None \<Rightarrow> c
      | Some l \<Rightarrow> l)"

text \<open>\<^verbatim>\<open>s.lower()\<close>\<close>

definition str_lower :: "string \<Rightarrow> string" where
  "str_lower s = map lower_char s"

text \<open>\<^verbatim>\<open>s.replace(ch, '')\<close> for a one-character \<^verbatim>\<open>ch\<close>.\<close>

definition remove_char :: "char \<Rightarrow> string \<Rightarrow> string" where
  "remove_char ch s = filter (\<lambda>c. c \<noteq> ch) s"

text \<open>\<^verbatim>\<open>s.strip(ch)\<close> for a one-character \<^verbatim>\<open>ch\<close>, and \<^verbatim>\<open>s.strip()\<close>.\<close>

definition strip_chars :: "char \<Rightarrow> string \<Rightarrow> string" where
  "strip_chars ch s = rev (dropWhile (\<lambda>c. c = ch) (rev (dropWhile (\<lambda>c. c = ch) s)))"

definition strip :: "string \<Rightarrow> string" where
  "strip s = rev (dropWhile is_space (rev (dropWhile is_space s)))"

text \<open>\<^verbatim>\<open>s.split(sep)\<close> for a one-character separator: never returns the empty list.\<close>

fun split_on :: "char \<Rightarrow> string \<Rightarrow> string list" where
  "split_on sep [] = [[]]"
| "split_on sep (c # cs) =
     (if c = sep then [] # split_on sep cs
      else (case split_on sep cs of
              [] \<Rightarrow> [[c]]
            | w # ws \<Rightarrow> (c # w) # ws))"

text \<open>\<^verbatim>\<open>sep.join(xs)\<close>\<close>

fun join :: "string \<Rightarrow> string list \<Rightarrow> string" where
  "join sep [] = []"
| "join sep [x] = x"
| "join sep (x # y # ys) = x @ sep @ join sep (y # ys)"

section \<open>The data model (models.py)\<close>

text \<open>
  The columns the routing pipeline reads. A table is the list of its rows in the order of
  their primary keys, the order in which SQLite, the configured engine, returns rows
  wherever the query does not order them: \<^verbatim>\<open>filter_by(...).first()\<close> is the first such row
  that passes the filter, and \<^verbatim>\<open>order_by(col)\<close> sorts by the column, rows with equal keys
  staying in primary-key order (the engine walks the index on the filter column and the
  sort column, whose entries with equal keys follow the primary key). A filter on a string
  column compares the whole string, letter case included.
\<close>

record site =
  s_id :: int
  s_path_prefix :: string
  s_name :: string
  s_template_theme :: string
  s_is_active :: bool

record page =
  p_id :: int
  p_site_id :: int
  p_path :: string
  p_title :: string
  p_is_active :: bool

record content_block =
  cb_id :: int
  cb_page_id :: int
  cb_block_type :: string
  cb_title :: "string option"
  cb_content :: string
  cb_order_index :: int
  cb_is_active :: bool
  cb_created_at :: nat

record navigation_item =
  nav_id :: int
  nav_site_id :: int
  nav_label :: string
  nav_url :: string
  nav_parent_id :: "int option"
  nav_order_index :: int
  nav_is_active :: bool

record store =
  sites :: "site list"
  pages :: "page list"
  content_blocks :: "content_block list"
  navigation_items :: "navigation_item list"

datatype exn = HTTPAbort nat | ValueError | RecursionError | SQLAlchemyError

subsection \<open>Validators\<close>

definition validate_path_prefix :: "string \<Rightarrow> exn + string" where
  "validate_path_prefix path_prefix =
     (if path_prefix = [] \<or>
         \<not> isalnum (remove_char CHR ''_'' (remove_char CHR ''-'' path_prefix))
      then Inl ValueError
      else Inr (str_lower path_prefix))"

definition allowed_themes :: "string list" where
  "allowed_themes = [''corporate'', ''blog'', ''portfolio'', ''default'']"

definition validate_template_theme :: "string \<Rightarrow> exn + string" where
  "validate_template_theme template_theme =
     (if template_theme \<notin> set allowed_themes then Inl ValueError else Inr template_theme)"

definition validate_path :: "string \<Rightarrow> exn + string" where
  "validate_path path =
     (if path = [] \<or>
         \<not> isalnum (remove_char CHR ''/'' (remove_char CHR ''_'' (remove_char CHR ''-'' path)))
      then Inl ValueError
      else Inr (str_lower path))"

definition allowed_types :: "string list" where
  "allowed_types =
     [''text'', ''html'', ''image'', ''list'', ''quote'', ''code'', ''video'', ''gallery'']"

subsection \<open>The plugin registry of block classes\<close>

text \<open>
  \<^verbatim>\<open>CONTENT_BLOCK_TYPES\<close> is a module-level dictionary from type tags to classes (here: class
  names). Every function of the module can read it, so the validator takes it as an
  argument; its body never looks at it.
\<close>

type_synonym registry = "string \<rightharpoonup> string"

definition CONTENT_BLOCK_TYPES :: registry where
  "CONTENT_BLOCK_TYPES =
     [''text'' \<mapsto> ''ContentBlock'', ''html'' \<mapsto> ''ContentBlock'',
      ''image'' \<mapsto> ''ContentBlock'', ''list'' \<mapsto> ''ContentBlock'',
      ''quote'' \<mapsto> ''ContentBlock'', ''code'' \<mapsto> ''ContentBlock'',
      ''video'' \<mapsto> ''ContentBlock'', ''gallery'' \<mapsto> ''ContentBlock'']"

definition register_content_block_type :: "string \<Rightarrow> string \<Rightarrow> registry \<Rightarrow> registry" where
  "register_content_block_type block_type block_class reg = reg(block_type \<mapsto> block_class)"

definition get_content_block_class :: "registry \<Rightarrow> string \<Rightarrow> string" where
  "get_content_block_class reg block_type =
     (case reg block_type of None \<Rightarrow> ''ContentBlock'' | Some c \<Rightarrow> c)"

definition validate_block_type :: "registry \<Rightarrow> string \<Rightarrow> exn + string" where
  "validate_block_type reg block_type =
     (if block_type \<notin> set allowed_types then Inl ValueError else Inr block_type)"

subsection \<open>ContentBlock.render\<close>

definition list_items :: "string \<Rightarrow> string list" where
  "list_items content =
     map strip (filter (\<lambda>item. strip item \<noteq> []) (split_on CHR 0x0A content))"

definition render :: "content_block \<Rightarrow> string" where
  "render b =
     (if cb_block_type b = ''text'' then
        ''<div class='' @ [CHR 0x27] @ ''content-block text'' @ [CHR 0x27] @ ''><p>''
          @ cb_content b @ ''</p></div>''
      else if cb_block_type b = ''html'' then
        ''<div class='' @ [CHR 0x27] @ ''content-block html'' @ [CHR 0x27] @ ''>''
          @ cb_content b @ ''</div>''
      else if cb_block_type b = ''image'' then
        (let alt_text = (case cb_title b of
                           None \<Rightarrow> ''Content Image''
                         | Some t \<Rightarrow> if t = [] then ''Content Image'' else t)
         in ''<div class='' @ [CHR 0x27] @ ''content-block image'' @ [CHR 0x27]
              @ ''><img src='' @ [CHR 0x27] @ cb_content b @ [CHR 0x27]
              @ '' alt='' @ [CHR 0x27] @ alt_text @ [CHR 0x27] @ ''></div>'')
      else if cb_block_type b = ''list'' then
        (let items = list_items (cb_content b);
             list_html = ''<ul>'' @ concat (map (\<lambda>item. ''<li>'' @ item @ ''</li>'') items)
                           @ ''</ul>''
         in ''<div class='' @ [CHR 0x27] @ ''content-block list'' @ [CHR 0x27] @ ''>''
              @ list_html @ ''</div>'')
      else if cb_block_type b = ''quote'' then
        ''<div class='' @ [CHR 0x27] @ ''content-block quote'' @ [CHR 0x27]
          @ ''><blockquote>'' @ cb_content b @ ''</blockquote></div>''
      else if cb_block_type b = ''code'' then
        ''<div class='' @ [CHR 0x27] @ ''content-block code'' @ [CHR 0x27]
          @ ''><pre><code>'' @ cb_content b @ ''</code></pre></div>''
      else
        ''<div class='' @ [CHR 0x27] @ ''content-block '' @ cb_block_type b @ [CHR 0x27]
          @ ''>'' @ cb_content b @ ''</div>'')"

text \<open>
  The \<^verbatim>\<open>else\<close> branch of \<^verbatim>\<open>ContentBlock.render\<close> is taken when none of the six
  comparisons of the chain holds.
\<close>

definition render_falls_back :: "content_block \<Rightarrow> bool" where
  "render_falls_back b =
     (cb_block_type b \<notin> {''text'', ''html'', ''image'', ''list'', ''quote'', ''code''})"

section \<open>The routing pipeline (app.py)\<close>

definition resolve_site :: "site list \<Rightarrow> string \<Rightarrow> site option" where
  "resolve_site tbl site_prefix =
     find (\<lambda>s. s_path_prefix s = site_prefix \<and> s_is_active s) tbl"

definition resolve_page :: "page list \<Rightarrow> site \<Rightarrow> string \<Rightarrow> page option" where
  "resolve_page tbl site page_path =
     find (\<lambda>p. p_site_id p = s_id site \<and> p_path p = page_path \<and> p_is_active p) tbl"

definition get_content_blocks :: "content_block list \<Rightarrow> page \<Rightarrow> content_block list" where
  "get_content_blocks tbl page =
     sort_key cb_order_index
       (filter (\<lambda>b. cb_page_id b = p_id page \<and> cb_is_active b) tbl)"

subsection \<open>Navigation\<close>

datatype nav_entry =
  NavEntry (entry_id: int) (entry_label: string) (entry_url: string)
           (entry_children: "nav_entry list")

text \<open>
  A list comprehension or loop whose body may raise: the results in order, or the first
  exception.
\<close>

fun collect :: "(exn + 'a) list \<Rightarrow> exn + 'a list" where
  "collect [] = Inr []"
| "collect (Inl e # rs) = Inl e"
| "collect (Inr x # rs) = (case collect rs of Inl e \<Rightarrow> Inl e | Inr xs \<Rightarrow> Inr (x # xs))"

text \<open>
  \<^verbatim>\<open>get_nav_children\<close> calls itself once for every child, with nothing that stops it but
  the interpreter's recursion limit. The first argument is the number of nested calls of
  \<^verbatim>\<open>get_nav_children\<close> for which the interpreter's stack still has room (each with the
  frames its own query and comprehension need); when there is room for none, the call
  raises \<^verbatim>\<open>RecursionError\<close>. Every nested call takes at least one frame and the route
  that calls \<^verbatim>\<open>build_navigation\<close> takes some already, so this number is smaller than the
  recursion limit: below 1000 at the default limit.
\<close>

fun get_nav_children :: "nat \<Rightarrow> navigation_item list \<Rightarrow> int \<Rightarrow> exn + nav_entry list" where
  "get_nav_children 0 tbl parent_id = Inl RecursionError"
| "get_nav_children (Suc depth) tbl parent_id =
     (let children = sort_key nav_order_index
                       (filter (\<lambda>c. nav_parent_id c = Some parent_id \<and> nav_is_active c) tbl)
      in collect (map (\<lambda>child.
                         case get_nav_children depth tbl (nav_id child) of
                           Inl e \<Rightarrow> Inl e
                         | Inr cs \<Rightarrow> Inr (NavEntry (nav_id child) (nav_label child)
                                                   (nav_url child) cs))
                      children))"

definition build_navigation :: "nat \<Rightarrow> navigation_item list \<Rightarrow> site \<Rightarrow> exn + nav_entry list" where
  "build_navigation depth tbl site =
     (let nav_items = sort_key nav_order_index
                        (filter (\<lambda>i. nav_site_id i = s_id site \<and> nav_parent_id i = None
                                      \<and> nav_is_active i) tbl)
      in collect (map (\<lambda>item.
                         case get_nav_children depth tbl (nav_id item) of
                           Inl e \<Rightarrow> Inl e
                         | Inr cs \<Rightarrow> Inr (NavEntry (nav_id item) (nav_label item)
                                                   (nav_url item) cs))
                      nav_items))"

subsection \<open>Template path and the second renderer\<close>

definition get_template_path :: "site \<Rightarrow> string \<Rightarrow> string" where
  "get_template_path site template_name =
     (let theme = s_template_theme site
      in ''themes/'' @ theme @ ''/'' @ template_name)"

definition render_block_html :: "content_block \<Rightarrow> string" where
  "render_block_html block =
     (if cb_block_type block = ''text'' then
        ''<div class='' @ [CHR 0x27] @ ''content-block text'' @ [CHR 0x27] @ ''>''
          @ cb_content block @ ''</div>''
      else if cb_block_type block = ''html'' then
        ''<div class='' @ [CHR 0x27] @ ''content-block html'' @ [CHR 0x27] @ ''>''
          @ cb_content block @ ''</div>''
      else if cb_block_type block = ''image'' then
        ''<div class='' @ [CHR 0x27] @ ''content-block image'' @ [CHR 0x27]
          @ ''><img src='' @ [CHR 0x27] @ cb_content block @ [CHR 0x27]
          @ '' alt='' @ [CHR 0x27] @ ''Content Image'' @ [CHR 0x27] @ ''></div>''
      else if cb_block_type block = ''list'' then
        (let items = split_on CHR 0x0A (cb_content block);
             list_html = ''<ul>''
                @ concat (map (\<lambda>item. ''<li>'' @ item @ ''</li>'')
                              (filter (\<lambda>item. strip item \<noteq> []) items))
                @ ''</ul>''
         in ''<div class='' @ [CHR 0x27] @ ''content-block list'' @ [CHR 0x27] @ ''>''
              @ list_html @ ''</div>'')
      else
        ''<div class='' @ [CHR 0x27] @ ''content-block unknown'' @ [CHR 0x27] @ ''>''
          @ cb_content block @ ''</div>'')"

text \<open>The \<^verbatim>\<open>else\<close> branch of that loop body is taken when none of its four comparisons holds.\<close>

definition html_falls_back :: "content_block \<Rightarrow> bool" where
  "html_falls_back block =
     (cb_block_type block \<notin> {''text'', ''html'', ''image'', ''list''})"

text \<open>
  \<^verbatim>\<open>render_content_blocks\<close>: the loop appends one string for each block
  (\<^const>\<open>render_block_html\<close> is its body) and the strings are joined by newlines.
\<close>

definition render_content_blocks :: "content_block list \<Rightarrow> string" where
  "render_content_blocks blocks = join [CHR 0x0A] (map render_block_html blocks)"

subsection \<open>The dynamic route\<close>

datatype stage =
  ResolveSite | ResolvePage | GetContentBlocks | BuildNavigation | GetTemplatePath
  | RenderTemplate

record response =
  resp_template :: string
  resp_site :: site
  resp_page :: page
  resp_content_blocks :: "content_block list"
  resp_navigation :: "nav_entry list"
  resp_rendered_blocks :: "string list"

text \<open>
  Modelled from the spec: the theme templates that \<^verbatim>\<open>render_template\<close> interprets are not
  among the sources. The page is the template path with the values handed to it, and
  each content block is passed to the block renderer, \<^verbatim>\<open>ContentBlock.render\<close>.
\<close>

definition render_template ::
  "string \<Rightarrow> site \<Rightarrow> page \<Rightarrow> content_block list \<Rightarrow> nav_entry list \<Rightarrow> response" where
  "render_template template_path site page blocks navigation =
     \<lparr>resp_template = template_path, resp_site = site, resp_page = page,
      resp_content_blocks = blocks, resp_navigation = navigation,
      resp_rendered_blocks = map render blocks\<rparr>"

definition path_parts :: "string \<Rightarrow> string list" where
  "path_parts url_path = split_on CHR ''/'' (strip_chars CHR ''/'' url_path)"

definition site_prefix_of :: "string list \<Rightarrow> string" where
  "site_prefix_of parts = parts ! 0"

definition page_path_of :: "string list \<Rightarrow> string" where
  "page_path_of parts = (if length parts > 1 then parts ! 1 else ''home'')"

text \<open>
  The body of the \<^verbatim>\<open>try\<close> block of \<^verbatim>\<open>dynamic_route\<close>. The first component lists the
  pipeline stages that were called, in order; the second is the exception raised or the
  rendered page.
\<close>

definition dynamic_route_body :: "store \<Rightarrow> nat \<Rightarrow> string \<Rightarrow> stage list \<times> (exn + response)" where
  "dynamic_route_body st depth url_path =
     (let parts = path_parts url_path in
      if length parts < 1 then ([], Inl (HTTPAbort 404))
      else
        let site_prefix = site_prefix_of parts;
            page_path = page_path_of parts
        in case resolve_site (sites st) site_prefix of
             None \<Rightarrow> ([ResolveSite], Inl (HTTPAbort 404))
           | Some site \<Rightarrow>
               (case resolve_page (pages st) site page_path of
                  None \<Rightarrow> ([ResolveSite, ResolvePage], Inl (HTTPAbort 404))
                | Some page \<Rightarrow>
                    (let blocks = get_content_blocks (content_blocks st) page
                     in case build_navigation depth (navigation_items st) site of
                          Inl e \<Rightarrow>
                            ([ResolveSite, ResolvePage, GetContentBlocks, BuildNavigation],
                             Inl e)
                        | Inr navigation \<Rightarrow>
                            (let template_path = get_template_path site ''page.html''
                             in ([ResolveSite, ResolvePage, GetContentBlocks,
                                  BuildNavigation, GetTemplatePath, RenderTemplate],
                                 Inr (render_template template_path site page blocks
                                        navigation))))))"

text \<open>
  The two handlers of the \<^verbatim>\<open>try\<close> block. \<^verbatim>\<open>abort(404)\<close> raises an \<^verbatim>\<open>HTTPException\<close>, which
  is an \<^verbatim>\<open>Exception\<close>; it is raised inside the \<^verbatim>\<open>try\<close> block, so the second handler
  catches it like any other exception and calls \<^verbatim>\<open>abort(500)\<close>.
\<close>

definition dynamic_route :: "store \<Rightarrow> nat \<Rightarrow> string \<Rightarrow> stage list \<times> (exn + response)" where
  "dynamic_route st depth url_path =
     (case dynamic_route_body st depth url_path of
        (called, Inr page) \<Rightarrow> (called, Inr page)
      | (called, Inl SQLAlchemyError) \<Rightarrow> (called, Inl (HTTPAbort 500))
      | (called, Inl e) \<Rightarrow> (called, Inl (HTTPAbort 500)))"

text \<open>The status code the client sees: the error handlers map an abort to its code.\<close>

definition status_code :: "exn + response \<Rightarrow> nat" where
  "status_code r = (case r of Inr page \<Rightarrow> 200 | Inl (HTTPAbort code) \<Rightarrow> code | Inl e \<Rightarrow> 500)"

section \<open>Parent chains of navigation items\<close>

text \<open>
  \<open>rooted_at tbl i d\<close>: the item with identifier \<open>i\<close> is reached from an item without
  parent by following \<open>d\<close> parent links downwards.
\<close>

inductive rooted_at :: "navigation_item list \<Rightarrow> int \<Rightarrow> nat \<Rightarrow> bool"
  for tbl :: "navigation_item list" where
  root: "x \<in> set tbl \<Longrightarrow> nav_parent_id x = None \<Longrightarrow> rooted_at tbl (nav_id x) 0"
| child: "x \<in> set tbl \<Longrightarrow> nav_parent_id x = Some p \<Longrightarrow> rooted_at tbl p d
          \<Longrightarrow> rooted_at tbl (nav_id x) (Suc d)"

text \<open>
  The parent links of a table, as pairs of an item's identifier and its parent's; an item
  lies on a cycle when these links lead from it back to itself.
\<close>

definition parent_links :: "navigation_item list \<Rightarrow> (int \<times> int) set" where
  "parent_links tbl = {(nav_id x, p) | x p. x \<in> set tbl \<and> nav_parent_id x = Some p}"

text \<open>The identifiers of a menu entry and of all entries below it.\<close>

primrec entry_ids :: "nav_entry \<Rightarrow> int set" where
  "entry_ids (NavEntry i l u cs) = insert i (\<Union> (set (map entry_ids cs)))"

section \<open>Example data\<close>

text \<open>The tenant, pages, block and menu of the end-to-end example.\<close>

definition acme :: site where
  "acme = \<lparr>s_id = 1, s_path_prefix = ''acme'', s_name = ''Acme'',
           s_template_theme = ''corporate'', s_is_active = True\<rparr>"

definition home_page :: page where
  "home_page = \<lparr>p_id = 1, p_site_id = 1, p_path = ''home'', p_title = ''Home'',
                p_is_active = True\<rparr>"

definition about_page :: page where
  "about_page = \<lparr>p_id = 2, p_site_id = 1, p_path = ''about'', p_title = ''About'',
                 p_is_active = True\<rparr>"

definition hello_quote :: content_block where
  "hello_quote = \<lparr>cb_id = 1, cb_page_id = 2, cb_block_type = ''quote'', cb_title = None,
                  cb_content = ''Hello'', cb_order_index = 1, cb_is_active = True,
                  cb_created_at = 1\<rparr>"

definition nav_home :: navigation_item where
  "nav_home = \<lparr>nav_id = 1, nav_site_id = 1, nav_label = ''Home'', nav_url = ''/acme'',
               nav_parent_id = None, nav_order_index = 0, nav_is_active = True\<rparr>"

definition nav_about :: navigation_item where
  "nav_about = \<lparr>nav_id = 2, nav_site_id = 1, nav_label = ''About'',
                nav_url = ''/acme/about'', nav_parent_id = Some 1, nav_order_index = 0,
                nav_is_active = True\<rparr>"

definition demo_store :: store where
  "demo_store = \<lparr>sites = [acme], pages = [home_page, about_page],
                 content_blocks = [hello_quote], navigation_items = [nav_home, nav_about]\<rparr>"

text \<open>Two menu items that name each other as parent.\<close>

definition cyc_a :: navigation_item where
  "cyc_a = \<lparr>nav_id = 3, nav_site_id = 1, nav_label = ''A'', nav_url = ''/a'',
            nav_parent_id = Some 4, nav_order_index = 0, nav_is_active = True\<rparr>"

definition cyc_b :: navigation_item where
  "cyc_b = \<lparr>nav_id = 4, nav_site_id = 1, nav_label = ''B'', nav_url = ''/b'',
            nav_parent_id = Some 3, nav_order_index = 0, nav_is_active = True\<rparr>"

text \<open>
  A menu without cycle in which every item but the first has the item before it as
  parent: \<open>chain_items n\<close> has \<open>n\<close> rows and is \<open>n\<close> levels deep.
\<close>

definition chain_item :: "nat \<Rightarrow> navigation_item" where
  "chain_item i =
     \<lparr>nav_id = int i, nav_site_id = 1, nav_label = ''Level'', nav_url = ''/level'',
      nav_parent_id = (if i = 1 then None else Some (int i - 1)), nav_order_index = 0,
      nav_is_active = True\<rparr>"

definition chain_items :: "nat \<Rightarrow> navigation_item list" where
  "chain_items n = map chain_item [1..<Suc n]"

text \<open>Two blocks of the page ``about'' with the same \<^verbatim>\<open>order_index\<close>, created one after the other.\<close>

definition tie_old :: content_block where
  "tie_old = \<lparr>cb_id = 1, cb_page_id = 2, cb_block_type = ''text'', cb_title = None,
              cb_content = ''first'', cb_order_index = 0, cb_is_active = True,
              cb_created_at = 1\<rparr>"

definition tie_new :: content_block where
  "tie_new = \<lparr>cb_id = 2, cb_page_id = 2, cb_block_type = ''text'', cb_title = None,
              cb_content = ''second'', cb_order_index = 0, cb_is_active = True,
              cb_created_at = 2\<rparr>"

text \<open>A block of a validated type without a branch of its own, and a list with padded lines.\<close>

definition video_block :: content_block where
  "video_block = \<lparr>cb_id = 3, cb_page_id = 2, cb_block_type = ''video'', cb_title = None,
                  cb_content = ''clip.mp4'', cb_order_index = 2, cb_is_active = True,
                  cb_created_at = 3\<rparr>"

definition padded_list :: content_block where
  "padded_list = \<lparr>cb_id = 4, cb_page_id = 2, cb_block_type = ''list'', cb_title = None,
                  cb_content = '' A \<newline>B'', cb_order_index = 3, cb_is_active = True,
                  cb_created_at = 4\<rparr>"

section \<open>Lemmas about the queries and the route\<close>

lemma find_SomeD: "find P xs = Some x \<Longrightarrow> x \<in> set xs \<and> P x"
  by (induction xs) (auto split: if_splits)

lemma find_unique:
  assumes "distinct (map f xs)" "x \<in> set xs" "P x" "\<And>y. P y \<Longrightarrow> f y = k" 
  shows "find P xs = Some x"
proof -
  from assms(2,3) have "find P xs \<noteq> None" by (auto simp: find_None_iff)
  then obtain y where y: "find P xs = Some y" by blast
  then have "y \<in> set xs" "P y" by (auto dest: find_SomeD)
  with assms have "f y = f x" by simp
  with assms(1,2) \<open>y \<in> set xs\<close> have "y = x" by (meson distinct_map inj_on_def)
  with y show ?thesis by simp
qed

lemma split_on_nonempty: "split_on sep s \<noteq> []"
  by (induction s) (auto split: list.splits)

lemma split_on_no_sep: "w \<in> set (split_on sep s) \<Longrightarrow> sep \<notin> set w"
proof (induction s arbitrary: w)
  case Nil
  then show ?case by simp
next
  case (Cons c cs)
  then show ?case by (auto split: if_splits list.splits)
qed

lemma path_parts_nonempty: "1 \<le> length (path_parts url)"
  using split_on_nonempty [of "CHR ''/''" "strip_chars CHR ''/'' url"]
  by (cases "path_parts url") (simp_all add: path_parts_def)

lemma page_path_no_slash: "CHR ''/'' \<notin> set (page_path_of (path_parts url))"
proof (cases "length (path_parts url) > 1")
  case True
  then have "path_parts url ! 1 \<in> set (path_parts url)" by simp
  then have "CHR ''/'' \<notin> set (path_parts url ! 1)"
    unfolding path_parts_def by (rule split_on_no_sep)
  with True show ?thesis by (simp add: page_path_of_def)
next
  case False
  then show ?thesis by (simp add: page_path_of_def)
qed

lemma dynamic_route_body_cases:
  "dynamic_route_body st depth url =
     (case resolve_site (sites st) (site_prefix_of (path_parts url)) of
        None \<Rightarrow> ([ResolveSite], Inl (HTTPAbort 404))
      | Some site \<Rightarrow>
          (case resolve_page (pages st) site (page_path_of (path_parts url)) of
             None \<Rightarrow> ([ResolveSite, ResolvePage], Inl (HTTPAbort 404))
           | Some page \<Rightarrow>
               (case build_navigation depth (navigation_items st) site of
                  Inl e \<Rightarrow> ([ResolveSite, ResolvePage, GetContentBlocks, BuildNavigation], Inl e)
                | Inr navigation \<Rightarrow>
                    ([ResolveSite, ResolvePage, GetContentBlocks, BuildNavigation,
                      GetTemplatePath, RenderTemplate],
                     Inr (render_template (get_template_path site ''page.html'') site page
                            (get_content_blocks (content_blocks st) page) navigation)))))"
  using path_parts_nonempty [of url]
  by (auto simp add: dynamic_route_body_def Let_def split: option.splits sum.splits)

lemma dynamic_route_fst: "fst (dynamic_route st depth url) = fst (dynamic_route_body st depth url)"
  by (simp add: dynamic_route_def split: prod.splits sum.splits exn.splits)

lemma dynamic_route_Inr:
  "snd (dynamic_route st depth url) = Inr r \<longleftrightarrow> snd (dynamic_route_body st depth url) = Inr r"
  by (auto simp add: dynamic_route_def split: prod.splits sum.splits exn.splits)

lemma dynamic_route_Inl:
  "snd (dynamic_route_body st depth url) = Inl e \<Longrightarrow>
   snd (dynamic_route st depth url) = Inl (HTTPAbort 500)"
  by (auto simp add: dynamic_route_def split: prod.splits sum.splits exn.splits)

lemma dynamic_route_served:
  assumes "snd (dynamic_route st depth url) = Inr r"
  shows "\<exists>site page navigation.
           resolve_site (sites st) (site_prefix_of (path_parts url)) = Some site
         \<and> resolve_page (pages st) site (page_path_of (path_parts url)) = Some page
         \<and> build_navigation depth (navigation_items st) site = Inr navigation
         \<and> r = render_template (get_template_path site ''page.html'') site page
                  (get_content_blocks (content_blocks st) page) navigation"
  using assms unfolding dynamic_route_Inr dynamic_route_body_cases
  by (auto split: option.splits sum.splits)

lemmas demo_defs =
  demo_store_def acme_def home_page_def about_page_def hello_quote_def nav_home_def
  nav_about_def

lemmas route_defs =
  path_parts_def strip_chars_def site_prefix_of_def page_path_of_def resolve_site_def
  resolve_page_def

section \<open>Lemmas about parent chains\<close>

lemma unique_row:
  assumes "distinct (map nav_id tbl)" "x \<in> set tbl" "y \<in> set tbl" "nav_id x = nav_id y"
  shows "x = y"
  using assms by (meson distinct_map inj_on_def)

lemma rooted_at_functional:
  assumes dist: "distinct (map nav_id tbl)"
  shows "rooted_at tbl i d \<Longrightarrow> rooted_at tbl i d' \<Longrightarrow> d = d'"
proof (induction arbitrary: d' rule: rooted_at.induct)
  case (root x)
  from root.prems show ?case
  proof (cases rule: rooted_at.cases)
    case (root y)
    then show ?thesis by simp
  next
    case (child y p d)
    with root.hyps dist have "x = y" by (auto intro: unique_row)
    with child root.hyps show ?thesis by simp
  qed
next
  case (child x p d)
  from child.prems show ?case
  proof (cases rule: rooted_at.cases)
    case (root y)
    with child.hyps dist have "x = y" by (auto intro: unique_row)
    with root child.hyps show ?thesis by simp
  next
    case inner: (child y q e)
    with child.hyps dist have "x = y" by (auto intro: unique_row)
    with inner child.hyps have "q = p" by simp
    with inner have "rooted_at tbl p e" by simp
    then have "d = e" by (rule child.IH)
    with inner show ?thesis by simp
  qed
qed

lemma rooted_at_ancestor:
  "rooted_at tbl i d \<Longrightarrow> k \<le> d \<Longrightarrow> \<exists>j \<in> nav_id ` set tbl. rooted_at tbl j k"
proof (induction rule: rooted_at.induct)
  case (root x)
  then show ?case by (auto intro: rooted_at.root)
next
  case (child x p d)
  show ?case
  proof (cases "k = Suc d")
    case True
    with child.hyps show ?thesis by (auto intro: rooted_at.child)
  next
    case False
    with child.prems have "k \<le> d" by simp
    then show ?thesis by (rule child.IH)
  qed
qed

lemma rooted_at_depth_bound:
  assumes dist: "distinct (map nav_id tbl)" and r: "rooted_at tbl i d"
  shows "d < length tbl"
proof -
  have "\<forall>k \<in> {..d}. \<exists>j. j \<in> nav_id ` set tbl \<and> rooted_at tbl j k"
    using rooted_at_ancestor [OF r] by blast
  then have "\<exists>f. \<forall>k \<in> {..d}. f k \<in> nav_id ` set tbl \<and> rooted_at tbl (f k) k"
    by (rule bchoice)
  then obtain f where f: "\<forall>k \<in> {..d}. f k \<in> nav_id ` set tbl \<and> rooted_at tbl (f k) k"
    by blast
  have "inj_on f {..d}"
  proof (rule inj_onI)
    fix a b assume ab: "a \<in> {..d}" "b \<in> {..d}" and eq: "f a = f b"
    from f ab have "rooted_at tbl (f a) a" by blast
    moreover from f ab have "rooted_at tbl (f b) b" by blast
    with eq have "rooted_at tbl (f a) b" by simp
    ultimately show "a = b" by (rule rooted_at_functional [OF dist])
  qed
  moreover have "f ` {..d} \<subseteq> nav_id ` set tbl" using f by auto
  ultimately have "card {..d} \<le> card (nav_id ` set tbl)"
    by (intro card_inj_on_le) auto
  also have "\<dots> \<le> card (set tbl)" by (rule card_image_le) simp
  also have "\<dots> \<le> length tbl" by (rule card_length)
  finally show ?thesis by simp
qed

lemma collect_all_ok:
  "(\<And>x. x \<in> set xs \<Longrightarrow> \<exists>r. f x = Inr r) \<Longrightarrow> \<exists>rs. collect (map f xs) = Inr rs"
proof (induction xs)
  case Nil
  then show ?case by simp
next
  case (Cons a xs)
  then obtain r where "f a = Inr r" by auto
  moreover from Cons obtain rs where "collect (map f xs) = Inr rs" by auto
  ultimately show ?case by simp
qed

lemma get_nav_children_enough:
  assumes dist: "distinct (map nav_id tbl)"
  shows "rooted_at tbl pid d \<Longrightarrow> length tbl \<le> d + n \<Longrightarrow> \<exists>r. get_nav_children n tbl pid = Inr r"
proof (induction n arbitrary: pid d)
  case 0
  with rooted_at_depth_bound [OF dist "0.prems"(1)] show ?case by simp
next
  case (Suc n)
  let ?cs = "sort_key nav_order_index
               (filter (\<lambda>c. nav_parent_id c = Some pid \<and> nav_is_active c) tbl)"
  let ?g = "\<lambda>child. case get_nav_children n tbl (nav_id child) of
                      Inl e \<Rightarrow> Inl e
                    | Inr cs \<Rightarrow> Inr (NavEntry (nav_id child) (nav_label child) (nav_url child) cs)"
  have "\<exists>r. ?g c = Inr r" if "c \<in> set ?cs" for c
  proof -
    from that have c: "c \<in> set tbl" "nav_parent_id c = Some pid" by auto
    then have "rooted_at tbl (nav_id c) (Suc d)"
      using Suc.prems(1) by (rule rooted_at.child)
    moreover from Suc.prems(2) have "length tbl \<le> Suc d + n" by simp
    ultimately obtain r where "get_nav_children n tbl (nav_id c) = Inr r"
      using Suc.IH by blast
    then show ?thesis by simp
  qed
  then have "\<exists>rs. collect (map ?g ?cs) = Inr rs" by (rule collect_all_ok)
  then show ?case by (simp add: Let_def)
qed


lemma collect_map_member:
  "collect (map g xs) = Inr ys \<Longrightarrow> y \<in> set ys \<Longrightarrow> \<exists>x \<in> set xs. g x = Inr y"
proof (induction xs arbitrary: ys)
  case Nil
  then show ?case by simp
next
  case (Cons a xs)
  then show ?case
    by (cases "g a"; cases "collect (map g xs)") auto
qed

lemma collect_map_keys:
  assumes "\<And>x y. g x = Inr y \<Longrightarrow> h y = k x"
  shows "collect (map g xs) = Inr ys \<Longrightarrow> map h ys = map k xs"
proof (induction xs arbitrary: ys)
  case Nil
  then show ?case by simp
next
  case (Cons a xs)
  then show ?case using assms
    by (cases "g a"; cases "collect (map g xs)") auto
qed

lemma parent_linksI:
  "x \<in> set tbl \<Longrightarrow> nav_parent_id x = Some p \<Longrightarrow> (nav_id x, p) \<in> parent_links tbl"
  by (auto simp: parent_links_def)

lemma parent_link_depth:
  assumes dist: "distinct (map nav_id tbl)"
    and r: "rooted_at tbl i d" and l: "(i, j) \<in> parent_links tbl"
  shows "\<exists>d'. d' < d \<and> rooted_at tbl j d'"
proof -
  from l obtain y where y: "y \<in> set tbl" "nav_id y = i" "nav_parent_id y = Some j"
    by (auto simp: parent_links_def)
  from r show ?thesis
  proof (cases rule: rooted_at.cases)
    case (root x)
    with y dist have "x = y" by (auto intro: unique_row)
    with root y show ?thesis by simp
  next
    case (child x p d0)
    with y dist have "x = y" by (auto intro: unique_row)
    with child y have "rooted_at tbl j d0" by simp
    with child show ?thesis by auto
  qed
qed

lemma ancestor_depth:
  assumes dist: "distinct (map nav_id tbl)"
  shows "(i, j) \<in> (parent_links tbl)\<^sup>+ \<Longrightarrow> rooted_at tbl i d
         \<Longrightarrow> \<exists>d'. d' < d \<and> rooted_at tbl j d'"
proof (induction arbitrary: d rule: trancl_induct)
  case (base j)
  then show ?case using parent_link_depth [OF dist] by blast
next
  case (step j k)
  from step.IH [OF step.prems] obtain d1 where d1: "d1 < d" "rooted_at tbl j d1" by blast
  from parent_link_depth [OF dist d1(2) step.hyps(2)]
  obtain d2 where "d2 < d1" "rooted_at tbl k d2" by blast
  with d1 show ?case by (auto intro: less_trans)
qed

lemma rooted_not_on_cycle:
  assumes dist: "distinct (map nav_id tbl)" and r: "rooted_at tbl i d"
  shows "(i, i) \<notin> (parent_links tbl)\<^sup>+"
proof
  assume "(i, i) \<in> (parent_links tbl)\<^sup>+"
  from ancestor_depth [OF dist this r] obtain d' where d': "d' < d" "rooted_at tbl i d'"
    by blast
  from rooted_at_functional [OF dist r d'(2)] d'(1) show False by simp
qed

lemma get_nav_children_rooted:
  "get_nav_children n tbl pid = Inr es \<Longrightarrow> rooted_at tbl pid d \<Longrightarrow> e \<in> set es
   \<Longrightarrow> i \<in> entry_ids e \<Longrightarrow> \<exists>d'. rooted_at tbl i d'"
proof (induction n arbitrary: pid d es e i)
  case 0
  then show ?case by simp
next
  case (Suc n)
  let ?cs = "sort_key nav_order_index
               (filter (\<lambda>c. nav_parent_id c = Some pid \<and> nav_is_active c) tbl)"
  let ?g = "\<lambda>child. case get_nav_children n tbl (nav_id child) of
                      Inl e \<Rightarrow> Inl e
                    | Inr cs \<Rightarrow> Inr (NavEntry (nav_id child) (nav_label child) (nav_url child) cs)"
  from Suc.prems(1) have "collect (map ?g ?cs) = Inr es" by (simp add: Let_def)
  from collect_map_member [OF this Suc.prems(3)]
  obtain c where c: "c \<in> set ?cs" "?g c = Inr e" by blast
  from c(2) obtain sub where sub: "get_nav_children n tbl (nav_id c) = Inr sub"
    and e: "e = NavEntry (nav_id c) (nav_label c) (nav_url c) sub"
    by (auto split: sum.splits)
  from c(1) have "c \<in> set tbl" "nav_parent_id c = Some pid" by auto
  then have rc: "rooted_at tbl (nav_id c) (Suc d)"
    using Suc.prems(2) by (rule rooted_at.child)
  from Suc.prems(4) e consider "i = nav_id c" | e' where "e' \<in> set sub" "i \<in> entry_ids e'"
    by auto
  then show ?case
  proof cases
    case 1
    with rc show ?thesis by blast
  next
    case 2
    with Suc.IH [OF sub rc] show ?thesis by blast
  qed
qed

lemma filter_upt_eq:
  "filter (\<lambda>i. i = a) [m..<n] = (if m \<le> a \<and> a < n then [a] else [])"
  by (induction n) auto

lemma chain_children:
  assumes "1 \<le> k"
  shows "filter (\<lambda>c. nav_parent_id c = Some (int k) \<and> nav_is_active c) (chain_items n)
         = (if k < n then [chain_item (Suc k)] else [])"
proof -
  have "(\<lambda>i. nav_parent_id (chain_item i) = Some (int k) \<and> nav_is_active (chain_item i))
        = (\<lambda>i. i = Suc k)"
    using assms by (auto simp: chain_item_def fun_eq_iff)
  then have "filter (\<lambda>c. nav_parent_id c = Some (int k) \<and> nav_is_active c) (chain_items n)
      = map chain_item (filter (\<lambda>i. i = Suc k) [1..<Suc n])"
    by (simp add: chain_items_def filter_map comp_def)
  then show ?thesis by (simp add: filter_upt_eq)
qed

lemma chain_too_deep:
  "1 \<le> k \<Longrightarrow> k + n \<le> N \<Longrightarrow> get_nav_children n (chain_items N) (int k) = Inl RecursionError"
proof (induction n arbitrary: k)
  case 0
  then show ?case by simp
next
  case (Suc n)
  then have "k < N" by simp
  moreover from Suc.prems
  have "get_nav_children n (chain_items N) (int (Suc k)) = Inl RecursionError"
    by (intro Suc.IH) simp_all
  ultimately show ?case using Suc.prems(1)
    by (simp add: chain_children chain_item_def)
qed

lemma chain_roots:
  assumes "1 \<le> N"
  shows "filter (\<lambda>i. nav_site_id i = 1 \<and> nav_parent_id i = None \<and> nav_is_active i)
           (chain_items N) = [chain_item 1]"
proof -
  have "(\<lambda>i. nav_site_id (chain_item i) = 1 \<and> nav_parent_id (chain_item i) = None
              \<and> nav_is_active (chain_item i)) = (\<lambda>i. i = 1)"
    by (auto simp: chain_item_def fun_eq_iff)
  then have "filter (\<lambda>i. nav_site_id i = 1 \<and> nav_parent_id i = None \<and> nav_is_active i)
           (chain_items N) = map chain_item (filter (\<lambda>i. i = 1) [1..<Suc N])"
    by (simp add: chain_items_def filter_map comp_def)
  with assms show ?thesis by (simp add: filter_upt_eq)
qed

lemma chain_build_fails:
  assumes "1 \<le> N" "n < N"
  shows "build_navigation n (chain_items N) acme = Inl RecursionError"
proof -
  from assms have "get_nav_children n (chain_items N) (int 1) = Inl RecursionError"
    by (intro chain_too_deep) simp_all
  then show ?thesis using chain_roots [OF assms(1)]
    by (simp add: build_navigation_def acme_def chain_item_def)
qed

section \<open>Tenant resolution\<close>

text \<open>
  Claim C1, as the code has it. The first path segment is compared with the stored prefix
  as it is, without case normalisation. Where prefixes are unique, a request whose first
  segment equals the prefix of an active site resolves to exactly that site, and every
  page served for it belongs to that site; where no active site has the segment as its
  prefix, no site is resolved and no page is served. A resolved site is always an active
  row of the table whose whole prefix equals the segment.
\<close>

theorem resolve_site_exact_prefix:
  assumes "distinct (map s_path_prefix (sites st))"
  shows "(\<forall>s \<in> set (sites st).
            s_is_active s \<and> s_path_prefix s = site_prefix_of (path_parts url) \<longrightarrow>
              resolve_site (sites st) (site_prefix_of (path_parts url)) = Some s
              \<and> (\<forall>r. snd (dynamic_route st depth url) = Inr r \<longrightarrow> resp_site r = s))
       \<and> ((\<forall>s \<in> set (sites st).
               s_is_active s \<longrightarrow> s_path_prefix s \<noteq> site_prefix_of (path_parts url)) \<longrightarrow>
              resolve_site (sites st) (site_prefix_of (path_parts url)) = None
              \<and> (\<forall>r. snd (dynamic_route st depth url) \<noteq> Inr r))
       \<and> (\<forall>s'. resolve_site (sites st) (site_prefix_of (path_parts url)) = Some s' \<longrightarrow>
              s' \<in> set (sites st) \<and> s_is_active s'
              \<and> s_path_prefix s' = site_prefix_of (path_parts url))"
proof (intro conjI ballI impI allI)
  fix s assume s: "s \<in> set (sites st)"
    "s_is_active s \<and> s_path_prefix s = site_prefix_of (path_parts url)"
  with assms show found: "resolve_site (sites st) (site_prefix_of (path_parts url)) = Some s"
    unfolding resolve_site_def
    by (intro find_unique [where f = s_path_prefix]) auto
  fix r assume "snd (dynamic_route st depth url) = Inr r"
  with found show "resp_site r = s"
    by (auto dest!: dynamic_route_served simp: render_template_def)
next
  assume none: "\<forall>s \<in> set (sites st).
    s_is_active s \<longrightarrow> s_path_prefix s \<noteq> site_prefix_of (path_parts url)"
  then show miss: "resolve_site (sites st) (site_prefix_of (path_parts url)) = None"
    by (auto simp: resolve_site_def find_None_iff)
  fix r
  from miss show "snd (dynamic_route st depth url) \<noteq> Inr r"
    by (auto dest!: dynamic_route_served)
next
  fix s' assume "resolve_site (sites st) (site_prefix_of (path_parts url)) = Some s'"
  then have "s' \<in> set (sites st)
      \<and> (s_path_prefix s' = site_prefix_of (path_parts url) \<and> s_is_active s')"
    unfolding resolve_site_def by (rule find_SomeD)
  then show "s' \<in> set (sites st)" "s_is_active s'"
    "s_path_prefix s' = site_prefix_of (path_parts url)"
    by simp_all
qed

theorem resolve_site_exact_prefix_witness:
  "distinct (map s_path_prefix (sites demo_store))
   \<and> acme \<in> set (sites demo_store) \<and> s_is_active acme
   \<and> s_path_prefix acme = site_prefix_of (path_parts ''acme/about'')
   \<and> resolve_site (sites demo_store) (site_prefix_of (path_parts ''acme/about'')) = Some acme
   \<and> s_path_prefix acme \<noteq> site_prefix_of (path_parts ''acm/about'')
   \<and> resolve_site (sites demo_store) (site_prefix_of (path_parts ''acm/about'')) = None"
proof -
  have d: "distinct (map s_path_prefix (sites demo_store))"
    by (simp add: demo_defs)
  have a: "acme \<in> set (sites demo_store)" "s_is_active acme"
    "s_path_prefix acme = site_prefix_of (path_parts ''acme/about'')"
    by (simp_all add: demo_defs route_defs)
  have n: "\<forall>s \<in> set (sites demo_store).
      s_is_active s \<longrightarrow> s_path_prefix s \<noteq> site_prefix_of (path_parts ''acm/about'')"
    by (simp add: demo_defs route_defs)
  from resolve_site_exact_prefix [OF d, of "''acme/about''" 2] a
  have "resolve_site (sites demo_store) (site_prefix_of (path_parts ''acme/about'')) = Some acme"
    by blast
  moreover from resolve_site_exact_prefix [OF d, of "''acm/about''" 2] n
  have "resolve_site (sites demo_store) (site_prefix_of (path_parts ''acm/about'')) = None"
    by blast
  moreover have "s_path_prefix acme \<noteq> site_prefix_of (path_parts ''acm/about'')"
    by (simp add: demo_defs route_defs)
  ultimately show ?thesis using d a by (intro conjI)
qed

theorem resolve_site_uppercase_counterexample:
  "acme \<in> set (sites demo_store) \<and> s_is_active acme
   \<and> str_lower (site_prefix_of (path_parts ''ACME/about'')) = s_path_prefix acme
   \<and> resolve_site (sites demo_store) (site_prefix_of (path_parts ''ACME/about'')) = None"
  by (simp add: demo_defs route_defs str_lower_def lower_char_def upper_letters_def
      lower_letters_def)

section \<open>Navigation\<close>

text \<open>
  Claim C2, as the code has it. The builder has no guard of its own: it keeps no set of
  visited items and no depth limit, and it cuts nothing. \<^verbatim>\<open>build_navigation\<close> starts from the
  items without parent and follows parent links downwards, as deep as the table goes.
  Where item identifiers are unique and the interpreter has room for as many nested calls
  of \<^verbatim>\<open>get_nav_children\<close> as the table has rows, it returns a menu, also for a table whose
  parent links form a cycle: the top-level entries are the active items of the site
  without parent, in \<^verbatim>\<open>order_index\<close> order, and no entry at any level lies on a parent cycle,
  since an item on a cycle is never reached from an item without parent.
\<close>

theorem build_navigation_terminates:
  assumes dist: "distinct (map nav_id tbl)" and enough: "length tbl \<le> depth"
  shows "\<exists>nav. build_navigation depth tbl site = Inr nav
           \<and> map entry_id nav
               = map nav_id (sort_key nav_order_index
                   (filter (\<lambda>i. nav_site_id i = s_id site \<and> nav_parent_id i = None
                                 \<and> nav_is_active i) tbl))
           \<and> (\<forall>e \<in> set nav. \<forall>i \<in> entry_ids e. (i, i) \<notin> (parent_links tbl)\<^sup>+)"
proof -
  let ?roots = "sort_key nav_order_index
                  (filter (\<lambda>i. nav_site_id i = s_id site \<and> nav_parent_id i = None
                                \<and> nav_is_active i) tbl)"
  let ?g = "\<lambda>item. case get_nav_children depth tbl (nav_id item) of
                      Inl e \<Rightarrow> Inl e
                    | Inr cs \<Rightarrow> Inr (NavEntry (nav_id item) (nav_label item) (nav_url item) cs)"
  have root: "rooted_at tbl (nav_id x) 0" if "x \<in> set ?roots" for x
    using that by (auto intro: rooted_at.root)
  have "\<exists>r. ?g x = Inr r" if x: "x \<in> set ?roots" for x
  proof -
    from get_nav_children_enough [OF dist root [OF x], of depth] enough
    obtain r where "get_nav_children depth tbl (nav_id x) = Inr r" by auto
    then show ?thesis by simp
  qed
  then have "\<exists>rs. collect (map ?g ?roots) = Inr rs" by (rule collect_all_ok)
  then obtain nav where nav: "collect (map ?g ?roots) = Inr nav" by blast
  then have build: "build_navigation depth tbl site = Inr nav"
    by (simp add: build_navigation_def Let_def)
  have "entry_id y = nav_id x" if "?g x = Inr y" for x y
    using that by (auto split: sum.splits)
  then have ids: "map entry_id nav = map nav_id ?roots"
    using nav by (rule collect_map_keys)
  have "(i, i) \<notin> (parent_links tbl)\<^sup>+" if e: "e \<in> set nav" and i: "i \<in> entry_ids e" for e i
  proof -
    from collect_map_member [OF nav e]
    obtain x where x: "x \<in> set ?roots" "?g x = Inr e" by blast
    from x(2) obtain sub where sub: "get_nav_children depth tbl (nav_id x) = Inr sub"
      and e': "e = NavEntry (nav_id x) (nav_label x) (nav_url x) sub"
      by (auto split: sum.splits)
    from i e' consider "i = nav_id x" | e2 where "e2 \<in> set sub" "i \<in> entry_ids e2"
      by auto
    then have "\<exists>d. rooted_at tbl i d"
    proof cases
      case 1
      with root [OF x(1)] show ?thesis by blast
    next
      case 2
      with get_nav_children_rooted [OF sub root [OF x(1)]] show ?thesis by blast
    qed
    then obtain d where "rooted_at tbl i d" by blast
    with dist show ?thesis by (rule rooted_not_on_cycle)
  qed
  with build ids show ?thesis by blast
qed

theorem build_navigation_terminates_witness:
  "distinct (map nav_id [nav_home, nav_about, cyc_a, cyc_b])
   \<and> length [nav_home, nav_about, cyc_a, cyc_b] \<le> 4
   \<and> (nav_id cyc_a, nav_id cyc_a) \<in> (parent_links [nav_home, nav_about, cyc_a, cyc_b])\<^sup>+
   \<and> build_navigation 4 [nav_home, nav_about, cyc_a, cyc_b] acme
       = Inr [NavEntry 1 ''Home'' ''/acme'' [NavEntry 2 ''About'' ''/acme/about'' []]]
   \<and> (\<exists>nav. build_navigation 4 [nav_home, nav_about, cyc_a, cyc_b] acme = Inr nav
          \<and> map entry_id nav = [1])"
proof -
  let ?tbl = "[nav_home, nav_about, cyc_a, cyc_b]"
  have d: "distinct (map nav_id ?tbl)" and l: "length ?tbl \<le> 4"
    by (simp_all add: nav_home_def nav_about_def cyc_a_def cyc_b_def)
  have "(nav_id cyc_a, nav_id cyc_b) \<in> parent_links ?tbl"
    by (rule parent_linksI) (simp_all add: cyc_a_def cyc_b_def)
  moreover have "(nav_id cyc_b, nav_id cyc_a) \<in> parent_links ?tbl"
    by (rule parent_linksI) (simp_all add: cyc_a_def cyc_b_def)
  ultimately have c: "(nav_id cyc_a, nav_id cyc_a) \<in> (parent_links ?tbl)\<^sup>+"
    by (rule trancl_into_trancl [OF r_into_trancl])
  have b: "build_navigation 4 ?tbl acme
       = Inr [NavEntry 1 ''Home'' ''/acme'' [NavEntry 2 ''About'' ''/acme/about'' []]]"
    by (simp add: build_navigation_def nav_home_def nav_about_def cyc_a_def cyc_b_def acme_def
        eval_nat_numeral)
  from build_navigation_terminates [OF d l, of acme] b
  have "\<exists>nav. build_navigation 4 ?tbl acme = Inr nav \<and> map entry_id nav = [1]"
    by simp
  with d l c b show ?thesis by (intro conjI)
qed

text \<open>
  The depth of the recursion is the depth of the menu, whatever that is. A menu without
  any cycle that is 1000 levels deep does not fit under the default recursion limit of
  1000 frames, which leaves room for fewer than 1000 nested calls: building it raises
  \<^verbatim>\<open>RecursionError\<close>; nothing is cut off at a maximum depth.
\<close>

theorem build_navigation_deep_chain_counterexample:
  "length (chain_items 1000) = 1000
   \<and> distinct (map nav_id (chain_items 1000))
   \<and> build_navigation 999 (chain_items 1000) acme = Inl RecursionError"
proof -
  have "distinct (map nav_id (chain_items 1000))"
    by (simp add: chain_items_def chain_item_def comp_def distinct_map inj_on_def)
  moreover have "build_navigation 999 (chain_items 1000) acme = Inl RecursionError"
    by (rule chain_build_fails) simp_all
  ultimately show ?thesis by (simp add: chain_items_def)
qed

section \<open>Content assembly\<close>

lemma insort_key_tie:
  fixes f g :: "'a \<Rightarrow> int"
  assumes "sorted_wrt (\<lambda>a b. f a < f b \<or> (f a = f b \<and> g a < g b)) ys"
    and "\<forall>y \<in> set ys. g x < g y"
  shows "sorted_wrt (\<lambda>a b. f a < f b \<or> (f a = f b \<and> g a < g b)) (insort_key f x ys)"
    (is "sorted_wrt ?R _")
  using assms
proof (induction ys)
  case Nil
  then show ?case by simp
next
  case (Cons y ys)
  show ?case
  proof (cases "f x \<le> f y")
    case True
    have "?R x z" if "z \<in> set (y # ys)" for z
    proof -
      from Cons.prems(1) that have "f y \<le> f z" by auto
      with True have "f x \<le> f z" by simp
      moreover from Cons.prems(2) that have "g x < g z" by auto
      ultimately show ?thesis by auto
    qed
    with True Cons.prems(1) show ?thesis by simp
  next
    case False
    from Cons have "sorted_wrt ?R (insort_key f x ys)" by simp
    moreover have "?R y w" if "w \<in> set (insort_key f x ys)" for w
      using that False Cons.prems(1) by (auto simp: set_insort_key)
    ultimately show ?thesis using False by simp
  qed
qed

lemma sort_key_tie:
  fixes f g :: "'a \<Rightarrow> int"
  assumes "sorted_wrt (<) (map g xs)"
  shows "sorted_wrt (\<lambda>a b. f a < f b \<or> (f a = f b \<and> g a < g b)) (sort_key f xs)"
  using assms
proof (induction xs)
  case Nil
  then show ?case by simp
next
  case (Cons x xs)
  then have "sorted_wrt (\<lambda>a b. f a < f b \<or> (f a = f b \<and> g a < g b)) (sort_key f xs)"
    by simp
  moreover from Cons.prems have "\<forall>y \<in> set (sort_key f xs). g x < g y" by simp
  ultimately show ?case by (simp add: insort_key_tie)
qed

text \<open>
  Claim C3. On a table in primary-key order (identifiers are handed out in the order of
  insertion), the blocks returned for a page are exactly the active blocks of that page
  (none inactive, none of another page, each as often as the table has it), in
  non-decreasing \<^verbatim>\<open>order_index\<close>, blocks with equal \<^verbatim>\<open>order_index\<close> in the order of their
  identifiers; a page without active blocks gives the empty list, which is a result like
  any other.
\<close>

theorem get_content_blocks_active_sorted:
  assumes "sorted_wrt (<) (map cb_id tbl)"
  shows "set (get_content_blocks tbl page)
           = {b \<in> set tbl. cb_page_id b = p_id page \<and> cb_is_active b}
       \<and> mset (get_content_blocks tbl page)
           = filter_mset (\<lambda>b. cb_page_id b = p_id page \<and> cb_is_active b) (mset tbl)
       \<and> sorted (map cb_order_index (get_content_blocks tbl page))
       \<and> sorted_wrt (\<lambda>a b. cb_order_index a < cb_order_index b
                           \<or> (cb_order_index a = cb_order_index b \<and> cb_id a < cb_id b))
            (get_content_blocks tbl page)
       \<and> ((\<forall>b \<in> set tbl. \<not> (cb_page_id b = p_id page \<and> cb_is_active b))
            \<longrightarrow> get_content_blocks tbl page = [])"
proof (intro conjI impI)
  show "set (get_content_blocks tbl page)
     = {b \<in> set tbl. cb_page_id b = p_id page \<and> cb_is_active b}"
    by (simp add: get_content_blocks_def)
  show "mset (get_content_blocks tbl page)
     = filter_mset (\<lambda>b. cb_page_id b = p_id page \<and> cb_is_active b) (mset tbl)"
    by (simp add: get_content_blocks_def)
  show "sorted (map cb_order_index (get_content_blocks tbl page))"
    by (simp add: get_content_blocks_def)
  from assms have "sorted_wrt (\<lambda>a b. cb_id a < cb_id b) tbl"
    by (simp add: sorted_wrt_map)
  then have "sorted_wrt (\<lambda>a b. cb_id a < cb_id b)
      (filter (\<lambda>b. cb_page_id b = p_id page \<and> cb_is_active b) tbl)"
    by (rule sorted_wrt_filter)
  then have "sorted_wrt (<)
      (map cb_id (filter (\<lambda>b. cb_page_id b = p_id page \<and> cb_is_active b) tbl))"
    by (simp add: sorted_wrt_map)
  then show "sorted_wrt (\<lambda>a b. cb_order_index a < cb_order_index b
                           \<or> (cb_order_index a = cb_order_index b \<and> cb_id a < cb_id b))
            (get_content_blocks tbl page)"
    unfolding get_content_blocks_def by (rule sort_key_tie)
  assume "\<forall>b \<in> set tbl. \<not> (cb_page_id b = p_id page \<and> cb_is_active b)"
  then have "filter (\<lambda>b. cb_page_id b = p_id page \<and> cb_is_active b) tbl = []"
    by (simp add: filter_empty_conv)
  then show "get_content_blocks tbl page = []"
    by (simp add: get_content_blocks_def)
qed

theorem get_content_blocks_active_sorted_witness:
  "sorted_wrt (<) (map cb_id [hello_quote])
   \<and> cb_page_id hello_quote \<noteq> p_id home_page
   \<and> get_content_blocks [hello_quote] home_page = []
   \<and> sorted_wrt (<) (map cb_id [tie_old, tie_new, video_block, padded_list])
   \<and> cb_order_index tie_old = cb_order_index tie_new
   \<and> get_content_blocks [tie_old, tie_new, video_block, padded_list] about_page
       = [tie_old, tie_new, video_block, padded_list]
   \<and> sorted (map cb_order_index
        (get_content_blocks [tie_old, tie_new, video_block, padded_list] about_page))"
proof -
  have s1: "sorted_wrt (<) (map cb_id [hello_quote])" by simp
  have s2: "sorted_wrt (<) (map cb_id [tie_old, tie_new, video_block, padded_list])"
    by (simp add: tie_old_def tie_new_def video_block_def padded_list_def)
  have h: "\<forall>b \<in> set [hello_quote]. \<not> (cb_page_id b = p_id home_page \<and> cb_is_active b)"
    by (simp add: demo_defs)
  note a = get_content_blocks_active_sorted [OF s1, of home_page]
  from a have "(\<forall>b \<in> set [hello_quote]. \<not> (cb_page_id b = p_id home_page \<and> cb_is_active b))
      \<longrightarrow> get_content_blocks [hello_quote] home_page = []"
    by (elim conjE)
  then have e: "get_content_blocks [hello_quote] home_page = []" using h by (rule mp)
  note b = get_content_blocks_active_sorted [OF s2, of about_page]
  from b have srt: "sorted (map cb_order_index
        (get_content_blocks [tie_old, tie_new, video_block, padded_list] about_page))"
    by (elim conjE)
  have n: "cb_page_id hello_quote \<noteq> p_id home_page" by (simp add: demo_defs)
  have t: "cb_order_index tie_old = cb_order_index tie_new"
    by (simp add: tie_old_def tie_new_def)
  have r: "get_content_blocks [tie_old, tie_new, video_block, padded_list] about_page
       = [tie_old, tie_new, video_block, padded_list]"
    by (simp add: get_content_blocks_def tie_old_def tie_new_def video_block_def
        padded_list_def about_page_def)
  from s1 n e s2 t r srt show ?thesis by (intro conjI)
qed

section \<open>Template path\<close>

text \<open>
  Claim C4, as the code has it. The template path is \<^verbatim>\<open>themes/<theme>/<template-name>\<close> with
  the theme of the site as stored; nothing is substituted. The allow-list is applied where
  a site is written: the validator raises \<^verbatim>\<open>ValueError\<close> for a theme outside the list and
  returns a listed theme unchanged.
\<close>

theorem get_template_path_key:
  "get_template_path site template_name
     = ''themes/'' @ s_template_theme site @ ''/'' @ template_name
   \<and> (s_template_theme site \<notin> set allowed_themes \<longrightarrow>
        validate_template_theme (s_template_theme site) = Inl ValueError)
   \<and> (s_template_theme site \<in> set allowed_themes \<longrightarrow>
        validate_template_theme (s_template_theme site) = Inr (s_template_theme site))"
  by (simp add: get_template_path_def validate_template_theme_def)

theorem get_template_path_key_witness:
  "s_template_theme acme \<in> set allowed_themes
   \<and> validate_template_theme (s_template_theme acme) = Inr ''corporate''
   \<and> get_template_path acme ''page.html'' = ''themes/corporate/page.html''
   \<and> s_template_theme (acme\<lparr>s_template_theme := ''neon''\<rparr>) \<notin> set allowed_themes
   \<and> validate_template_theme (s_template_theme (acme\<lparr>s_template_theme := ''neon''\<rparr>))
       = Inl ValueError
   \<and> get_template_path (acme\<lparr>s_template_theme := ''neon''\<rparr>) ''page.html''
       = ''themes/neon/page.html''"
proof -
  have a: "s_template_theme acme \<in> set allowed_themes"
    by (simp add: acme_def allowed_themes_def)
  have n: "s_template_theme (acme\<lparr>s_template_theme := ''neon''\<rparr>) \<notin> set allowed_themes"
    by (simp add: allowed_themes_def)
  have t: "s_template_theme acme = ''corporate''" by (simp add: acme_def)
  from a n t get_template_path_key [of acme "''page.html''"]
    get_template_path_key [of "acme\<lparr>s_template_theme := ''neon''\<rparr>" "''page.html''"]
  show ?thesis by simp
qed

theorem get_template_path_counterexample:
  "s_template_theme acme = ''corporate''
   \<and> get_template_path acme ''page'' \<noteq> ''corporate/page''
   \<and> ''neon'' \<notin> set allowed_themes
   \<and> get_template_path (acme\<lparr>s_template_theme := ''neon''\<rparr>) ''page'' = ''themes/neon/page''"
  by (simp add: get_template_path_def acme_def allowed_themes_def)

section \<open>Rendering a block without a branch of its own\<close>

text \<open>
  Claim C5, as the code has it. Both renderers are total functions, so neither raises. For
  a block whose type has no branch, \<^verbatim>\<open>ContentBlock.render\<close> returns the generic wrapper with
  the type name as class label around the unchanged content; \<^verbatim>\<open>render_content_blocks\<close>
  returns a wrapper with the fixed label \<^verbatim>\<open>unknown\<close> around the unchanged content.
\<close>

theorem fallback_keeps_content:
  "(render_falls_back b \<longrightarrow>
      render b = ''<div class='' @ [CHR 0x27] @ ''content-block '' @ cb_block_type b
                 @ [CHR 0x27] @ ''>'' @ cb_content b @ ''</div>'')
   \<and> (html_falls_back b \<longrightarrow>
      render_block_html b = ''<div class='' @ [CHR 0x27] @ ''content-block unknown''
                 @ [CHR 0x27] @ ''>'' @ cb_content b @ ''</div>'')"
  by (simp add: render_falls_back_def html_falls_back_def render_def render_block_html_def)

theorem fallback_keeps_content_witness:
  "render_falls_back video_block \<and> html_falls_back video_block
   \<and> render video_block = ''<div class='' @ [CHR 0x27] @ ''content-block video''
        @ [CHR 0x27] @ ''>clip.mp4</div>''
   \<and> render_block_html video_block = ''<div class='' @ [CHR 0x27] @ ''content-block unknown''
        @ [CHR 0x27] @ ''>clip.mp4</div>''"
proof -
  have f: "render_falls_back video_block" "html_falls_back video_block"
    by (simp_all add: render_falls_back_def html_falls_back_def video_block_def)
  have v: "cb_block_type video_block = ''video''" "cb_content video_block = ''clip.mp4''"
    by (simp_all add: video_block_def)
  from fallback_keeps_content [of video_block] f v show ?thesis by simp
qed

theorem render_content_blocks_label_counterexample:
  "cb_block_type video_block = ''video''
   \<and> html_falls_back video_block
   \<and> render_content_blocks [video_block]
       = ''<div class='' @ [CHR 0x27] @ ''content-block unknown'' @ [CHR 0x27]
         @ ''>clip.mp4</div>''"
  by (simp add: render_content_blocks_def render_block_html_def html_falls_back_def
      video_block_def)

section \<open>Page resolution\<close>

lemma build_navigation_demo:
  "build_navigation 2 (navigation_items demo_store) acme
     = Inr [NavEntry 1 ''Home'' ''/acme'' [NavEntry 2 ''About'' ''/acme/about'' []]]"
  by (simp add: build_navigation_def demo_defs numeral_2_eq_2)

lemma page_path_defaults_to_home:
  "length (path_parts url) \<le> 1 \<Longrightarrow> page_path_of (path_parts url) = ''home''"
  by (simp add: page_path_of_def)

lemma resolve_page_exact:
  "resolve_page tbl site page_path = Some p \<Longrightarrow>
     p \<in> set tbl \<and> p_site_id p = s_id site \<and> p_path p = page_path \<and> p_is_active p"
  unfolding resolve_page_def by (drule find_SomeD) simp

lemma resolve_page_miss:
  "resolve_page tbl site page_path = None \<longleftrightarrow>
     (\<forall>p \<in> set tbl. \<not> (p_site_id p = s_id site \<and> p_path p = page_path \<and> p_is_active p))"
  by (auto simp: resolve_page_def find_None_iff)

lemma home_page_served:
  "snd (dynamic_route demo_store 2 ''acme'') =
     Inr (render_template ''themes/corporate/page.html'' acme home_page []
            [NavEntry 1 ''Home'' ''/acme'' [NavEntry 2 ''About'' ''/acme/about'' []]])"
proof -
  have "resolve_site (sites demo_store) (site_prefix_of (path_parts ''acme'')) = Some acme"
    by (simp add: demo_defs route_defs)
  moreover have "resolve_page (pages demo_store) acme (page_path_of (path_parts ''acme''))
      = Some home_page"
    by (simp add: demo_defs route_defs)
  moreover have "get_content_blocks (content_blocks demo_store) home_page = []"
    by (simp add: get_content_blocks_def demo_defs)
  moreover have "get_template_path acme ''page.html'' = ''themes/corporate/page.html''"
    by (simp add: get_template_path_def acme_def)
  ultimately show ?thesis
    by (simp add: dynamic_route_def dynamic_route_body_cases build_navigation_demo)
qed

text \<open>
  Claim C6 at the request \<^verbatim>\<open>/acme/unknown-page\<close>. The site resolves and the page lookup
  finds nothing, so the route calls \<^verbatim>\<open>abort(404)\<close>; the handler for \<^verbatim>\<open>Exception\<close> around it turns
  that into \<^verbatim>\<open>abort(500)\<close>, and the client sees status 500 where the claim says NotFound.
\<close>

theorem missing_page_gives_500:
  "resolve_site (sites demo_store) (site_prefix_of (path_parts ''acme/unknown-page'')) = Some acme
   \<and> resolve_page (pages demo_store) acme (page_path_of (path_parts ''acme/unknown-page'')) = None
   \<and> dynamic_route_body demo_store 1000 ''acme/unknown-page''
       = ([ResolveSite, ResolvePage], Inl (HTTPAbort 404))
   \<and> dynamic_route demo_store 1000 ''acme/unknown-page''
       = ([ResolveSite, ResolvePage], Inl (HTTPAbort 500))
   \<and> status_code (snd (dynamic_route demo_store 1000 ''acme/unknown-page'')) = 500"
  by (simp add: dynamic_route_def dynamic_route_body_cases status_code_def demo_defs route_defs)

section \<open>List blocks\<close>

lemma strip_empty_iff: "strip s = [] \<longleftrightarrow> list_all is_space s"
proof -
  have "strip s = [] \<longleftrightarrow> (\<forall>x \<in> set (dropWhile is_space s). is_space x)"
    by (simp add: strip_def dropWhile_eq_Nil_conv)
  also have "\<dots> \<longleftrightarrow> dropWhile is_space s = []"
  proof
    assume all: "\<forall>x \<in> set (dropWhile is_space s). is_space x"
    show "dropWhile is_space s = []"
    proof (rule ccontr)
      assume ne: "dropWhile is_space s \<noteq> []"
      then have "\<not> is_space (hd (dropWhile is_space s))" by (rule hd_dropWhile)
      moreover from ne have "hd (dropWhile is_space s) \<in> set (dropWhile is_space s)" by simp
      ultimately show False using all by blast
    qed
  next
    assume e: "dropWhile is_space s = []"
    show "\<forall>x \<in> set (dropWhile is_space s). is_space x"
      unfolding e by simp
  qed
  also have "\<dots> \<longleftrightarrow> list_all is_space s"
    by (simp add: dropWhile_eq_Nil_conv list_all_iff)
  finally show ?thesis .
qed

lemma last_dropWhile: "dropWhile P xs \<noteq> [] \<Longrightarrow> last (dropWhile P xs) = last xs"
  by (induction xs) (auto split: if_splits)

lemma strip_trimmed:
  assumes "strip s \<noteq> []"
  shows "\<not> is_space (hd (strip s)) \<and> \<not> is_space (last (strip s))"
proof -
  let ?ys = "dropWhile is_space s"
  let ?d = "dropWhile is_space (rev ?ys)"
  from assms have d: "?d \<noteq> []" by (simp add: strip_def)
  have ys: "?ys \<noteq> []"
  proof
    assume e: "?ys = []"
    have "?d = []" unfolding e by simp
    with d show False by contradiction
  qed
  have "last (strip s) = hd ?d" by (simp add: strip_def last_rev)
  moreover from d have "\<not> is_space (hd ?d)" by (rule hd_dropWhile)
  moreover have "hd (strip s) = last ?d" using d by (simp add: strip_def hd_rev)
  moreover from d have "last ?d = last (rev ?ys)" by (rule last_dropWhile)
  moreover have "last (rev ?ys) = hd ?ys" by (simp add: last_rev)
  moreover from ys have "\<not> is_space (hd ?ys)" by (rule hd_dropWhile)
  ultimately show ?thesis by simp
qed

text \<open>
  Claim C7, as the code has it. For a block of type \<^verbatim>\<open>list\<close>, \<^verbatim>\<open>ContentBlock.render\<close> splits the
  content at newlines, drops the lines that are empty or all whitespace, trims the others
  and emits them as list items in their order; every item is non-empty and neither starts
  nor ends with whitespace. \<^verbatim>\<open>render_content_blocks\<close> splits and drops the same lines but
  emits the kept lines untrimmed. The content \<^verbatim>\<open>A\nB\n\nC\<close> gives the three items A, B, C.
\<close>

theorem list_rendering:
  "(cb_block_type b = ''list'' \<longrightarrow>
      render b = ''<div class='' @ [CHR 0x27] @ ''content-block list'' @ [CHR 0x27] @ ''><ul>''
                 @ concat (map (\<lambda>item. ''<li>'' @ item @ ''</li>'') (list_items (cb_content b)))
                 @ ''</ul></div>''
      \<and> render_block_html b
          = ''<div class='' @ [CHR 0x27] @ ''content-block list'' @ [CHR 0x27] @ ''><ul>''
            @ concat (map (\<lambda>item. ''<li>'' @ item @ ''</li>'')
                          (filter (\<lambda>line. \<not> list_all is_space line)
                                  (split_on CHR 0x0A (cb_content b))))
            @ ''</ul></div>'')
   \<and> list_items content
       = map strip (filter (\<lambda>line. \<not> list_all is_space line) (split_on CHR 0x0A content))
   \<and> (\<forall>item \<in> set (list_items content).
         item \<noteq> [] \<and> \<not> is_space (hd item) \<and> \<not> is_space (last item))
   \<and> list_items ''A\<newline>B\<newline>\<newline>C'' = [''A'', ''B'', ''C'']"
proof (intro conjI impI ballI)
  assume "cb_block_type b = ''list''"
  then show "render b = ''<div class='' @ [CHR 0x27] @ ''content-block list'' @ [CHR 0x27] @ ''><ul>''
                 @ concat (map (\<lambda>item. ''<li>'' @ item @ ''</li>'') (list_items (cb_content b)))
                 @ ''</ul></div>''"
    by (simp add: render_def)
next
  assume "cb_block_type b = ''list''"
  then show "render_block_html b
          = ''<div class='' @ [CHR 0x27] @ ''content-block list'' @ [CHR 0x27] @ ''><ul>''
            @ concat (map (\<lambda>item. ''<li>'' @ item @ ''</li>'')
                          (filter (\<lambda>line. \<not> list_all is_space line)
                                  (split_on CHR 0x0A (cb_content b))))
            @ ''</ul></div>''"
    by (simp add: render_block_html_def strip_empty_iff)
next
  show "list_items content
       = map strip (filter (\<lambda>line. \<not> list_all is_space line) (split_on CHR 0x0A content))"
    by (simp add: list_items_def strip_empty_iff)
next
  fix item assume "item \<in> set (list_items content)"
  then obtain line where "item = strip line" "strip line \<noteq> []"
    by (auto simp: list_items_def)
  then show "item \<noteq> []" "\<not> is_space (hd item)" "\<not> is_space (last item)"
    using strip_trimmed [of line] by simp_all
next
  show "list_items ''A\<newline>B\<newline>\<newline>C'' = [''A'', ''B'', ''C'']"
    by (simp add: list_items_def strip_def is_space_def)
qed

theorem list_rendering_witness:
  "cb_block_type padded_list = ''list''
   \<and> list_items (cb_content padded_list) = [''A'', ''B'']
   \<and> ''A'' \<in> set (list_items (cb_content padded_list))
   \<and> \<not> is_space (hd ''A'') \<and> \<not> is_space (last ''A'')
   \<and> render padded_list
       = ''<div class='' @ [CHR 0x27] @ ''content-block list'' @ [CHR 0x27]
         @ ''><ul><li>A</li><li>B</li></ul></div>''"
proof -
  have t: "cb_block_type padded_list = ''list''" by (simp add: padded_list_def)
  have i: "list_items (cb_content padded_list) = [''A'', ''B'']"
    by (simp add: padded_list_def list_items_def strip_def is_space_def)
  note inst = list_rendering [of padded_list "cb_content padded_list"]
  from inst have "cb_block_type padded_list = ''list'' \<longrightarrow>
      render padded_list
        = ''<div class='' @ [CHR 0x27] @ ''content-block list'' @ [CHR 0x27] @ ''><ul>''
          @ concat (map (\<lambda>item. ''<li>'' @ item @ ''</li>'') (list_items (cb_content padded_list)))
          @ ''</ul></div>''
      \<and> render_block_html padded_list
          = ''<div class='' @ [CHR 0x27] @ ''content-block list'' @ [CHR 0x27] @ ''><ul>''
            @ concat (map (\<lambda>item. ''<li>'' @ item @ ''</li>'')
                          (filter (\<lambda>line. \<not> list_all is_space line)
                                  (split_on CHR 0x0A (cb_content padded_list))))
            @ ''</ul></div>''"
    by (rule conjunct1)
  with t have r: "render padded_list
        = ''<div class='' @ [CHR 0x27] @ ''content-block list'' @ [CHR 0x27] @ ''><ul>''
          @ concat (map (\<lambda>item. ''<li>'' @ item @ ''</li>'') (list_items (cb_content padded_list)))
          @ ''</ul></div>''"
    by (elim impE conjE)
  from inst have a: "\<forall>item \<in> set (list_items (cb_content padded_list)).
         item \<noteq> [] \<and> \<not> is_space (hd item) \<and> \<not> is_space (last item)"
    by (elim conjE)
  from r i have "render padded_list
       = ''<div class='' @ [CHR 0x27] @ ''content-block list'' @ [CHR 0x27]
         @ ''><ul><li>A</li><li>B</li></ul></div>''"
    by simp
  moreover from i have m: "''A'' \<in> set (list_items (cb_content padded_list))" by simp
  moreover from a m have "\<not> is_space (hd ''A'') \<and> \<not> is_space (last ''A'')"
    by (elim ballE [where x = "''A''"] conjE) (rule conjI, assumption+, contradiction)
  ultimately show ?thesis using t i by (intro conjI) (elim conjE, assumption)+
qed

theorem render_content_blocks_untrimmed_counterexample:
  "cb_block_type padded_list = ''list''
   \<and> cb_content padded_list = '' A \<newline>B''
   \<and> render_content_blocks [padded_list]
       = ''<div class='' @ [CHR 0x27] @ ''content-block list'' @ [CHR 0x27]
         @ ''><ul><li> A </li><li>B</li></ul></div>''"
  by (simp add: render_content_blocks_def render_block_html_def
      strip_def is_space_def padded_list_def)

lemma list_items_latin1_spaces:
  "list_items [CHR 0xA0, CHR ''A'', CHR 0xA0, CHR 0x0A, CHR 0x85, CHR 0x0A, CHR ''B'']
     = [''A'', ''B'']"
  by (simp add: list_items_def strip_def is_space_def)

section \<open>Short circuit\<close>

text \<open>
  Claim C8. When the site lookup returns no site, the site lookup is the only stage the
  route has called; when the site resolves and the page lookup returns no page, the two
  lookups are the only stages called. Content retrieval, navigation building, template
  selection and rendering (of the template and, in it, of the blocks) are not called.
\<close>

theorem short_circuit:
  "(resolve_site (sites st) (site_prefix_of (path_parts url)) = None \<longrightarrow>
      fst (dynamic_route st depth url) = [ResolveSite])
   \<and> (\<forall>site. resolve_site (sites st) (site_prefix_of (path_parts url)) = Some site
           \<and> resolve_page (pages st) site (page_path_of (path_parts url)) = None \<longrightarrow>
      fst (dynamic_route st depth url) = [ResolveSite, ResolvePage])"
  by (simp add: dynamic_route_fst dynamic_route_body_cases)

theorem short_circuit_witness:
  "resolve_site (sites demo_store) (site_prefix_of (path_parts ''unknown-tenant/anything'')) = None
   \<and> fst (dynamic_route demo_store 1000 ''unknown-tenant/anything'') = [ResolveSite]
   \<and> resolve_site (sites demo_store) (site_prefix_of (path_parts ''acme/unknown-page'')) = Some acme
   \<and> resolve_page (pages demo_store) acme (page_path_of (path_parts ''acme/unknown-page'')) = None
   \<and> fst (dynamic_route demo_store 1000 ''acme/unknown-page'') = [ResolveSite, ResolvePage]"
proof -
  have s: "resolve_site (sites demo_store)
      (site_prefix_of (path_parts ''unknown-tenant/anything'')) = None"
    by (simp add: demo_defs route_defs)
  have p: "resolve_site (sites demo_store)
      (site_prefix_of (path_parts ''acme/unknown-page'')) = Some acme"
    "resolve_page (pages demo_store) acme (page_path_of (path_parts ''acme/unknown-page'')) = None"
    by (simp_all add: demo_defs route_defs)
  from short_circuit [of demo_store "''unknown-tenant/anything''" 1000] s
  have "fst (dynamic_route demo_store 1000 ''unknown-tenant/anything'') = [ResolveSite]"
    by blast
  moreover from short_circuit [of demo_store "''acme/unknown-page''" 1000] p
  have "fst (dynamic_route demo_store 1000 ''acme/unknown-page'') = [ResolveSite, ResolvePage]"
    by blast
  ultimately show ?thesis using s p by blast
qed

section \<open>Block types at the write boundary\<close>

text \<open>
  Claim C9, as the code has it. The validator accepts exactly the eight listed tags and
  raises \<^verbatim>\<open>ValueError\<close> for every other tag, whatever has been registered in
  \<^verbatim>\<open>CONTENT_BLOCK_TYPES\<close>; a validated block carries one of the eight tags. The fallback
  branch is reached by validated blocks all the same: in \<^verbatim>\<open>ContentBlock.render\<close> exactly by
  \<^verbatim>\<open>video\<close> and \<^verbatim>\<open>gallery\<close>, in \<^verbatim>\<open>render_content_blocks\<close> exactly by \<^verbatim>\<open>quote\<close>, \<^verbatim>\<open>code\<close>, \<^verbatim>\<open>video\<close>
  and \<^verbatim>\<open>gallery\<close>.
\<close>

theorem validate_block_type_closed:
  "(validate_block_type reg t = Inr t \<longleftrightarrow>
      t \<in> {''text'', ''html'', ''image'', ''list'', ''quote'', ''code'', ''video'', ''gallery''})
   \<and> (t \<notin> {''text'', ''html'', ''image'', ''list'', ''quote'', ''code'', ''video'', ''gallery''}
        \<longrightarrow> validate_block_type reg t = Inl ValueError)
   \<and> validate_block_type (register_content_block_type t' c reg) t = validate_block_type reg t
   \<and> (\<forall>x. validate_block_type reg (cb_block_type b) = Inr x \<longrightarrow>
        cb_block_type b
          \<in> {''text'', ''html'', ''image'', ''list'', ''quote'', ''code'', ''video'', ''gallery''}
        \<and> (render_falls_back b \<longleftrightarrow> cb_block_type b \<in> {''video'', ''gallery''})
        \<and> (html_falls_back b
             \<longleftrightarrow> cb_block_type b \<in> {''quote'', ''code'', ''video'', ''gallery''}))"
proof (intro conjI allI impI)
  show "validate_block_type reg t = Inr t \<longleftrightarrow>
      t \<in> {''text'', ''html'', ''image'', ''list'', ''quote'', ''code'', ''video'', ''gallery''}"
    by (simp add: validate_block_type_def allowed_types_def)
  show "validate_block_type reg t = Inl ValueError"
    if "t \<notin> {''text'', ''html'', ''image'', ''list'', ''quote'', ''code'', ''video'', ''gallery''}"
    using that by (simp add: validate_block_type_def allowed_types_def)
  show "validate_block_type (register_content_block_type t' c reg) t = validate_block_type reg t"
    by (simp add: validate_block_type_def)
  fix x assume "validate_block_type reg (cb_block_type b) = Inr x"
  then show ok: "cb_block_type b
      \<in> {''text'', ''html'', ''image'', ''list'', ''quote'', ''code'', ''video'', ''gallery''}"
    by (simp add: validate_block_type_def allowed_types_def split: if_splits)
  from ok show "render_falls_back b \<longleftrightarrow> cb_block_type b \<in> {''video'', ''gallery''}"
    unfolding render_falls_back_def by auto
  from ok show "html_falls_back b
      \<longleftrightarrow> cb_block_type b \<in> {''quote'', ''code'', ''video'', ''gallery''}"
    unfolding html_falls_back_def by auto
qed

theorem validate_block_type_closed_witness:
  "''custom'' \<notin> {''text'', ''html'', ''image'', ''list'', ''quote'', ''code'', ''video'', ''gallery''}
   \<and> get_content_block_class
        (register_content_block_type ''custom'' ''CustomBlock'' CONTENT_BLOCK_TYPES) ''custom''
       = ''CustomBlock''
   \<and> validate_block_type
        (register_content_block_type ''custom'' ''CustomBlock'' CONTENT_BLOCK_TYPES) ''custom''
       = Inl ValueError
   \<and> validate_block_type CONTENT_BLOCK_TYPES (cb_block_type video_block) = Inr ''video''
   \<and> cb_block_type video_block
       \<in> {''text'', ''html'', ''image'', ''list'', ''quote'', ''code'', ''video'', ''gallery''}
   \<and> render_falls_back video_block"
proof -
  have c: "''custom''
      \<notin> {''text'', ''html'', ''image'', ''list'', ''quote'', ''code'', ''video'', ''gallery''}"
    by simp
  have g: "get_content_block_class
        (register_content_block_type ''custom'' ''CustomBlock'' CONTENT_BLOCK_TYPES) ''custom''
       = ''CustomBlock''"
    by (simp add: get_content_block_class_def register_content_block_type_def)
  have v: "validate_block_type CONTENT_BLOCK_TYPES (cb_block_type video_block) = Inr ''video''"
    by (simp add: validate_block_type_def allowed_types_def video_block_def)
  have t: "cb_block_type video_block = ''video''" by (simp add: video_block_def)
  note inst = validate_block_type_closed
         [of "register_content_block_type ''custom'' ''CustomBlock'' CONTENT_BLOCK_TYPES"
             "''custom''" "''custom''" "''CustomBlock''" video_block]
  from inst have "''custom''
      \<notin> {''text'', ''html'', ''image'', ''list'', ''quote'', ''code'', ''video'', ''gallery''}
      \<longrightarrow> validate_block_type
        (register_content_block_type ''custom'' ''CustomBlock'' CONTENT_BLOCK_TYPES) ''custom''
       = Inl ValueError"
    by (elim conjE)
  then have 1: "validate_block_type
        (register_content_block_type ''custom'' ''CustomBlock'' CONTENT_BLOCK_TYPES) ''custom''
       = Inl ValueError"
    using c by (rule mp)
  note inst' = validate_block_type_closed [of CONTENT_BLOCK_TYPES "''video''" "''custom''"
         "''CustomBlock''" video_block]
  from inst' have "\<forall>x. validate_block_type CONTENT_BLOCK_TYPES (cb_block_type video_block) = Inr x
      \<longrightarrow> cb_block_type video_block
          \<in> {''text'', ''html'', ''image'', ''list'', ''quote'', ''code'', ''video'', ''gallery''}
        \<and> (render_falls_back video_block \<longleftrightarrow> cb_block_type video_block \<in> {''video'', ''gallery''})
        \<and> (html_falls_back video_block
             \<longleftrightarrow> cb_block_type video_block \<in> {''quote'', ''code'', ''video'', ''gallery''})"
    by (elim conjE)
  with v have 23: "cb_block_type video_block
          \<in> {''text'', ''html'', ''image'', ''list'', ''quote'', ''code'', ''video'', ''gallery''}
        \<and> (render_falls_back video_block \<longleftrightarrow> cb_block_type video_block \<in> {''video'', ''gallery''})"
    by (elim allE [where x = "''video''"] impE conjE) (assumption, rule conjI)
  then have 2: "cb_block_type video_block
       \<in> {''text'', ''html'', ''image'', ''list'', ''quote'', ''code'', ''video'', ''gallery''}"
    by (rule conjunct1)
  from 23 t have 3: "render_falls_back video_block" by simp
  show ?thesis
    by (intro conjI c g v 1 2 3)
qed

theorem validated_block_falls_back_counterexample:
  "validate_block_type CONTENT_BLOCK_TYPES (cb_block_type video_block) = Inr ''video''
   \<and> render_falls_back video_block
   \<and> render video_block
       = ''<div class='' @ [CHR 0x27] @ ''content-block video'' @ [CHR 0x27]
         @ ''>clip.mp4</div>''
   \<and> validate_block_type CONTENT_BLOCK_TYPES (cb_block_type hello_quote) = Inr ''quote''
   \<and> html_falls_back hello_quote
   \<and> render_content_blocks [hello_quote]
       = ''<div class='' @ [CHR 0x27] @ ''content-block unknown'' @ [CHR 0x27]
         @ ''>Hello</div>''"
  by (simp add: validate_block_type_def allowed_types_def render_falls_back_def
      html_falls_back_def render_def render_content_blocks_def render_block_html_def
      video_block_def hello_quote_def)

section \<open>Segments after the second\<close>

lemma trim_ends:
  assumes "rev (dropWhile P (rev (dropWhile P s))) \<noteq> []"
  shows "\<not> P (hd (rev (dropWhile P (rev (dropWhile P s)))))
       \<and> \<not> P (last (rev (dropWhile P (rev (dropWhile P s)))))"
proof -
  let ?ys = "dropWhile P s"
  let ?d = "dropWhile P (rev ?ys)"
  from assms have d: "?d \<noteq> []" by simp
  have ys: "?ys \<noteq> []"
  proof
    assume e: "?ys = []"
    have "?d = []" unfolding e by simp
    with d show False by contradiction
  qed
  have "last (rev ?d) = hd ?d" by (simp add: last_rev)
  moreover from d have "\<not> P (hd ?d)" by (rule hd_dropWhile)
  moreover have "hd (rev ?d) = last ?d" using d by (simp add: hd_rev)
  moreover from d have "last ?d = last (rev ?ys)" by (rule last_dropWhile)
  moreover have "last (rev ?ys) = hd ?ys" by (simp add: last_rev)
  moreover from ys have "\<not> P (hd ?ys)" by (rule hd_dropWhile)
  ultimately show ?thesis by simp
qed

lemma trim_id:
  assumes "s \<noteq> []" "\<not> P (hd s)" "\<not> P (last s)"
  shows "rev (dropWhile P (rev (dropWhile P s))) = s"
proof -
  from assms(1,2) have 1: "dropWhile P s = s" by (cases s) simp_all
  from assms(1,3) have "dropWhile P (rev s) = rev s"
    by (cases "rev s") (simp_all add: hd_rev [symmetric] del: rev_is_Nil_conv)
  with 1 show ?thesis by simp
qed

lemma split_on_single: "sep \<notin> set b \<Longrightarrow> split_on sep b = [b]"
  by (induction b) auto

lemma split_on_append:
  "sep \<notin> set a \<Longrightarrow> split_on sep (a @ sep # b) = a # split_on sep b"
  by (induction a) auto

lemma split_on_first_nonempty:
  "s \<noteq> [] \<Longrightarrow> hd s \<noteq> sep \<Longrightarrow> hd (split_on sep s) \<noteq> []"
  by (cases s) (auto split: list.splits)

lemma path_parts_two:
  assumes "a \<noteq> []" "b \<noteq> []" "CHR ''/'' \<notin> set a" "CHR ''/'' \<notin> set b"
  shows "path_parts (a @ ''/'' @ b) = [a, b]"
proof -
  from assms have "hd (a @ ''/'' @ b) \<noteq> CHR ''/''" by (cases a) auto
  moreover from assms have "last (a @ ''/'' @ b) \<noteq> CHR ''/''" by (auto dest: last_in_set)
  ultimately have "strip_chars CHR ''/'' (a @ ''/'' @ b) = a @ ''/'' @ b"
    unfolding strip_chars_def by (intro trim_id) simp_all
  with assms show ?thesis
    by (simp add: path_parts_def split_on_append split_on_single)
qed

lemma first_segment_nonempty:
  assumes "2 \<le> length (path_parts p)"
  shows "path_parts p ! 0 \<noteq> []"
proof -
  let ?s = "strip_chars CHR ''/'' p"
  have ne: "?s \<noteq> []"
  proof
    assume "?s = []"
    then have "path_parts p = [[]]" by (simp add: path_parts_def)
    with assms show False by simp
  qed
  then have "hd ?s \<noteq> CHR ''/''"
    unfolding strip_chars_def using trim_ends [of "\<lambda>c. c = CHR ''/''" p] by simp
  with ne have "hd (split_on CHR ''/'' ?s) \<noteq> []" by (rule split_on_first_nonempty)
  moreover have "hd (path_parts p) = path_parts p ! 0"
    using assms by (cases "path_parts p") simp_all
  ultimately show ?thesis by (simp add: path_parts_def)
qed

lemma dynamic_route_depends_on_two_segments:
  assumes "take 2 (path_parts p) = take 2 (path_parts q)"
  shows "dynamic_route st depth p = dynamic_route st depth q"
proof -
  have lp: "1 \<le> length (path_parts p)" and lq: "1 \<le> length (path_parts q)"
    by (rule path_parts_nonempty)+
  from assms have len: "min 2 (length (path_parts p)) = min 2 (length (path_parts q))"
    by (metis length_take min.commute)
  have "path_parts p ! 0 = take 2 (path_parts p) ! 0" by simp
  also have "\<dots> = path_parts q ! 0" by (simp add: assms)
  finally have site: "site_prefix_of (path_parts p) = site_prefix_of (path_parts q)"
    by (simp add: site_prefix_of_def)
  have page: "page_path_of (path_parts p) = page_path_of (path_parts q)"
  proof (cases "1 < length (path_parts p)")
    case True
    with len have q: "1 < length (path_parts q)" by simp
    have "path_parts p ! 1 = take 2 (path_parts p) ! 1" by simp
    also have "\<dots> = path_parts q ! 1" by (simp add: assms)
    finally show ?thesis using True q by (simp add: page_path_of_def)
  next
    case False
    with len have "\<not> 1 < length (path_parts q)" by simp
    with False show ?thesis by (simp add: page_path_of_def)
  qed
  have "dynamic_route_body st depth p = dynamic_route_body st depth q"
    unfolding dynamic_route_body_cases site page by (rule refl)
  then show ?thesis
    by (simp add: dynamic_route_def)
qed


lemma two_segment_path:
  assumes "2 \<le> length (path_parts p)" "path_parts p ! 1 \<noteq> []"
  shows "path_parts (path_parts p ! 0 @ ''/'' @ path_parts p ! 1) = take 2 (path_parts p)"
proof -
  let ?a = "path_parts p ! 0" and ?b = "path_parts p ! 1"
  from assms(1) have "?a \<in> set (path_parts p)" "?b \<in> set (path_parts p)"
    by (auto intro: nth_mem)
  then have "CHR ''/'' \<notin> set ?a" "CHR ''/'' \<notin> set ?b"
    unfolding path_parts_def by (auto dest: split_on_no_sep)
  moreover from assms(1) have "?a \<noteq> []" by (rule first_segment_nonempty)
  ultimately have "path_parts (?a @ ''/'' @ ?b) = [?a, ?b]"
    using assms(2) by (intro path_parts_two)
  moreover from assms(1) have "take 2 (path_parts p) = [?a, ?b]"
    by (cases "path_parts p"; cases "tl (path_parts p)") auto
  ultimately show ?thesis by simp
qed

text \<open>
  Claim C10, as the code has it. The dynamic route consults the first two segments only:
  two request paths with the same first two segments get the same answer, and a path with
  three or more segments whose second segment is not empty gets the answer of the
  two-segment path made of its first two segments. An empty second segment (as in
  \<^verbatim>\<open>/t//b\<close>) is looked up as the empty page path; it is not replaced by the home page. The
  path of a served page never contains a slash, although the path validator accepts one
  (\<^verbatim>\<open>docs/intro\<close>): such a page cannot be reached through the route.
\<close>

theorem extra_segments_ignored:
  "(3 \<le> length (path_parts p) \<and> path_parts p ! 1 \<noteq> [] \<longrightarrow>
      dynamic_route st depth p
        = dynamic_route st depth (path_parts p ! 0 @ ''/'' @ path_parts p ! 1))
   \<and> (take 2 (path_parts p) = take 2 (path_parts q) \<longrightarrow>
        dynamic_route st depth p = dynamic_route st depth q)
   \<and> (2 \<le> length (path_parts p) \<and> path_parts p ! 1 = [] \<longrightarrow>
        page_path_of (path_parts p) = [])
   \<and> (\<forall>r. snd (dynamic_route st depth p) = Inr r \<longrightarrow>
        CHR ''/'' \<notin> set (p_path (resp_page r)))
   \<and> validate_path ''docs/intro'' = Inr ''docs/intro''"
proof (intro conjI allI impI)
  assume a: "3 \<le> length (path_parts p) \<and> path_parts p ! 1 \<noteq> []"
  then have "path_parts (path_parts p ! 0 @ ''/'' @ path_parts p ! 1) = take 2 (path_parts p)"
    by (intro two_segment_path) simp_all
  then have "take 2 (path_parts p)
      = take 2 (path_parts (path_parts p ! 0 @ ''/'' @ path_parts p ! 1))"
    by simp
  then show "dynamic_route st depth p
        = dynamic_route st depth (path_parts p ! 0 @ ''/'' @ path_parts p ! 1)"
    by (rule dynamic_route_depends_on_two_segments)
next
  assume "take 2 (path_parts p) = take 2 (path_parts q)"
  then show "dynamic_route st depth p = dynamic_route st depth q"
    by (rule dynamic_route_depends_on_two_segments)
next
  assume "2 \<le> length (path_parts p) \<and> path_parts p ! 1 = []"
  then show "page_path_of (path_parts p) = []"
    by (simp add: page_path_of_def)
next
  fix r assume "snd (dynamic_route st depth p) = Inr r"
  then obtain site page where
    page: "resolve_page (pages st) site (page_path_of (path_parts p)) = Some page"
    and r: "resp_page r = page"
    by (auto dest!: dynamic_route_served simp: render_template_def)
  from page have "p_path page = page_path_of (path_parts p)"
    unfolding resolve_page_def by (auto dest: find_SomeD)
  with r show "CHR ''/'' \<notin> set (p_path (resp_page r))"
    by (simp add: page_path_no_slash)
next
  show "validate_path ''docs/intro'' = Inr ''docs/intro''"
    by (simp add: validate_path_def remove_char_def isalnum_def is_alnum_def str_lower_def
        lower_char_def upper_letters_def lower_letters_def)
qed

theorem extra_segments_ignored_witness:
  "3 \<le> length (path_parts ''/acme/about/b/c'')
   \<and> path_parts ''/acme/about/b/c'' ! 0 = ''acme''
   \<and> path_parts ''/acme/about/b/c'' ! 1 = ''about''
   \<and> dynamic_route demo_store 2 ''/acme/about/b/c'' = dynamic_route demo_store 2 ''acme/about''
   \<and> 2 \<le> length (path_parts ''acme//b'')
   \<and> path_parts ''acme//b'' ! 1 = []
   \<and> page_path_of (path_parts ''acme//b'') = []
   \<and> snd (dynamic_route demo_store 2 ''acme'')
       = Inr (render_template ''themes/corporate/page.html'' acme home_page []
               [NavEntry 1 ''Home'' ''/acme'' [NavEntry 2 ''About'' ''/acme/about'' []]])
   \<and> CHR ''/'' \<notin> set (p_path home_page)"
proof -
  have h: "3 \<le> length (path_parts ''/acme/about/b/c'')"
    "path_parts ''/acme/about/b/c'' ! 0 = ''acme''"
    "path_parts ''/acme/about/b/c'' ! 1 = ''about''"
    by (simp_all add: path_parts_def strip_chars_def)
  have e: "2 \<le> length (path_parts ''acme//b'')" "path_parts ''acme//b'' ! 1 = []"
    by (simp_all add: path_parts_def strip_chars_def)
  note inst = extra_segments_ignored [of "''/acme/about/b/c''" demo_store 2 "''acme''"]
  from inst have "3 \<le> length (path_parts ''/acme/about/b/c'')
      \<and> path_parts ''/acme/about/b/c'' ! 1 \<noteq> [] \<longrightarrow>
      dynamic_route demo_store 2 ''/acme/about/b/c''
        = dynamic_route demo_store 2
            (path_parts ''/acme/about/b/c'' ! 0 @ ''/'' @ path_parts ''/acme/about/b/c'' ! 1)"
    by (rule conjunct1)
  moreover from h have "3 \<le> length (path_parts ''/acme/about/b/c'')
      \<and> path_parts ''/acme/about/b/c'' ! 1 \<noteq> []"
    by simp
  ultimately have "dynamic_route demo_store 2 ''/acme/about/b/c''
        = dynamic_route demo_store 2
            (path_parts ''/acme/about/b/c'' ! 0 @ ''/'' @ path_parts ''/acme/about/b/c'' ! 1)"
    by (rule mp)
  with h have same: "dynamic_route demo_store 2 ''/acme/about/b/c''
      = dynamic_route demo_store 2 ''acme/about''"
    by simp
  note inst2 = extra_segments_ignored [of "''acme//b''" demo_store 2 "''acme''"]
  from inst2 have "2 \<le> length (path_parts ''acme//b'') \<and> path_parts ''acme//b'' ! 1 = []
      \<longrightarrow> page_path_of (path_parts ''acme//b'') = []"
    by (elim conjE)
  moreover from e have "2 \<le> length (path_parts ''acme//b'') \<and> path_parts ''acme//b'' ! 1 = []"
    by simp
  ultimately have empty: "page_path_of (path_parts ''acme//b'') = []" by (rule mp)
  note inst3 = extra_segments_ignored [of "''acme''" demo_store 2 "''acme''"]
  from inst3 have "\<forall>r. snd (dynamic_route demo_store 2 ''acme'') = Inr r \<longrightarrow>
      CHR ''/'' \<notin> set (p_path (resp_page r))"
    by (elim conjE)
  with home_page_served have "CHR ''/'' \<notin> set (p_path home_page)"
    by (fastforce simp: render_template_def)
  with h same e empty home_page_served show ?thesis by (intro conjI)
qed

text \<open>
  The path \<^verbatim>\<open>acme//b\<close> has three segments, the second of them empty. The route looks up the
  page with the empty path and misses, while the path made of the first two segments,
  \<^verbatim>\<open>acme/\<close>, is served the home page.
\<close>

theorem empty_second_segment_counterexample:
  "length (path_parts ''acme//b'') = 3
   \<and> path_parts ''acme//b'' ! 0 = ''acme''
   \<and> path_parts ''acme//b'' ! 1 = []
   \<and> dynamic_route demo_store 2 ''acme//b''
       = ([ResolveSite, ResolvePage], Inl (HTTPAbort 500))
   \<and> snd (dynamic_route demo_store 2 (''acme'' @ ''/'' @ []))
       = Inr (render_template ''themes/corporate/page.html'' acme home_page []
               [NavEntry 1 ''Home'' ''/acme'' [NavEntry 2 ''About'' ''/acme/about'' []]])"
proof -
  have "dynamic_route demo_store 2 ''acme//b''
       = ([ResolveSite, ResolvePage], Inl (HTTPAbort 500))"
    by (simp add: dynamic_route_def dynamic_route_body_cases demo_defs route_defs)
  moreover have "take 2 (path_parts (''acme'' @ ''/'' @ [])) = take 2 (path_parts ''acme'')"
    by (simp add: path_parts_def strip_chars_def)
  then have "dynamic_route demo_store 2 (''acme'' @ ''/'' @ [])
      = dynamic_route demo_store 2 ''acme''"
    by (rule dynamic_route_depends_on_two_segments)
  with home_page_served
  have "snd (dynamic_route demo_store 2 (''acme'' @ ''/'' @ []))
       = Inr (render_template ''themes/corporate/page.html'' acme home_page []
               [NavEntry 1 ''Home'' ''/acme'' [NavEntry 2 ''About'' ''/acme/about'' []]])"
    by simp
  moreover have "length (path_parts ''acme//b'') = 3" "path_parts ''acme//b'' ! 0 = ''acme''"
    "path_parts ''acme//b'' ! 1 = []"
    by (simp_all add: path_parts_def strip_chars_def)
  ultimately show ?thesis by (intro conjI)
qed

end
